theory Spec2Isabelle
  imports Complex_Main
begin

section \<open>JavaScript values\<close>

text \<open>
  The utility functions of \<^verbatim>\<open>dantil.js\<close> inspect their arguments at run time
  (\<^verbatim>\<open>===\<close>, \<^verbatim>\<open>.constructor\<close>, \<^verbatim>\<open>Array.isArray\<close>), so the embedding carries a
  datatype of JavaScript values. Arrays and objects carry the address of the instance,
  because \<^verbatim>\<open>===\<close> compares instances and not contents. A constructor
  (\<^verbatim>\<open>Number\<close>, \<^verbatim>\<open>String\<close>, \<^verbatim>\<open>Array\<close>, a user-defined class) is a tag.
  Finite numbers are rationals; \<^verbatim>\<open>NaN\<close> is a value of its own because it is the one
  number that is not \<^verbatim>\<open>===\<close> to itself.
\<close>

datatype ctor = CNumber | CString | CBoolean | CArray | CObject | CFunction | CClass nat

datatype jsval =
    Undefined
  | Null
  | Bool bool
  | Num rat
  | NaN
  | Str string
  | Arr nat "jsval list"
  | Obj nat ctor "(string \<times> jsval) list"

datatype jserror =
    TypeError
  | NoSuchLabel
  | EISDIR
  | ENOENT
  | Thrown string

text \<open>\<^verbatim>\<open>a === b\<close>: primitives by value, arrays and objects by instance.\<close>

fun strict_eq :: "jsval \<Rightarrow> jsval \<Rightarrow> bool" where
  "strict_eq Undefined Undefined = True"
| "strict_eq Null Null = True"
| "strict_eq (Bool a) (Bool b) = (a = b)"
| "strict_eq (Num a) (Num b) = (a = b)"
| "strict_eq (Str a) (Str b) = (a = b)"
| "strict_eq (Arr p _) (Arr q _) = (p = q)"
| "strict_eq (Obj p _ _) (Obj q _ _) = (p = q)"
| "strict_eq _ _ = False"

section \<open>Objects, schemas and the options validator\<close>

text \<open>
  A plain object is the list of its own enumerable properties in the order in which
  \<^verbatim>\<open>for (var prop in obj)\<close> visits them. \<^verbatim>\<open>obj.hasOwnProperty(prop)\<close> and
  \<^verbatim>\<open>obj[prop]\<close> read the list; reading a property that is not there gives
  \<^verbatim>\<open>undefined\<close>.
\<close>

type_synonym 'v object = "(string \<times> 'v) list"

definition keys :: "'v object \<Rightarrow> string list" where
  "keys obj = map fst obj"

definition hasOwnProperty :: "'v object \<Rightarrow> string \<Rightarrow> bool" where
  "hasOwnProperty obj prop = (prop \<in> set (keys obj))"

definition getProp :: "jsval object \<Rightarrow> string \<Rightarrow> jsval" where
  "getProp obj prop = (case map_of obj prop of None \<Rightarrow> Undefined | Some v \<Rightarrow> v)"

text \<open>
  A schema value is a constructor (\<^verbatim>\<open>num: Number\<close>), an array of accepted values
  (\<^verbatim>\<open>val: [ 'red', 'yellow', 'blue' ]\<close>) or a descriptor object
  \<^verbatim>\<open>{ type: ..., optional: ..., arrayType: ... }\<close> whose \<^verbatim>\<open>type\<close> is again a
  constructor or an array of accepted values.
\<close>

datatype ptype = TCtor ctor | TVals "jsval list"

datatype rule =
    TypeTag ctor
  | OneOf "jsval list"
  | Descriptor ptype bool "ctor option"

type_synonym schema = "rule object"

text \<open>\<^verbatim>\<open>val.optional\<close>, read for its truthiness: a constructor and an array have no such property.\<close>

fun optional :: "rule \<Rightarrow> bool" where
  "optional (TypeTag c) = False"
| "optional (OneOf vs) = False"
| "optional (Descriptor t opt elt) = opt"

text \<open>\<^verbatim>\<open>schemaVal.type || schemaVal\<close>.\<close>

fun schemaPropType :: "rule \<Rightarrow> ptype" where
  "schemaPropType (TypeTag c) = TCtor c"
| "schemaPropType (OneOf vs) = TVals vs"
| "schemaPropType (Descriptor t opt elt) = t"

text \<open>\<^verbatim>\<open>schemaVal.arrayType\<close>.\<close>

fun arrayType :: "rule \<Rightarrow> ctor option" where
  "arrayType (TypeTag c) = None"
| "arrayType (OneOf vs) = None"
| "arrayType (Descriptor t opt elt) = elt"

fun isArray :: "jsval \<Rightarrow> bool" where
  "isArray (Arr p xs) = True"
| "isArray _ = False"

fun elements :: "jsval \<Rightarrow> jsval list" where
  "elements (Arr p xs) = xs"
| "elements _ = []"

text \<open>
  \<^verbatim>\<open>xs.indexOf(x)\<close>: the first index whose element is \<^verbatim>\<open>===\<close> to \<open>x\<close>, or \<open>-1\<close>.
\<close>

fun indexOf_from :: "int \<Rightarrow> jsval list \<Rightarrow> jsval \<Rightarrow> int" where
  "indexOf_from i [] x = - 1"
| "indexOf_from i (y # ys) x = (if strict_eq y x then i else indexOf_from (i + 1) ys x)"

definition indexOf :: "jsval list \<Rightarrow> jsval \<Rightarrow> int" where
  "indexOf xs x = indexOf_from 0 xs x"

text \<open>
  \<^verbatim>\<open>v.constructor\<close>: reading a property of \<^verbatim>\<open>undefined\<close> or \<^verbatim>\<open>null\<close> throws a
  \<^verbatim>\<open>TypeError\<close>; a primitive answers with its wrapper's constructor.
\<close>

fun constructor_of :: "jsval \<Rightarrow> jserror + ctor" where
  "constructor_of Undefined = Inl TypeError"
| "constructor_of Null = Inl TypeError"
| "constructor_of (Bool b) = Inr CBoolean"
| "constructor_of (Num n) = Inr CNumber"
| "constructor_of NaN = Inr CNumber"
| "constructor_of (Str s) = Inr CString"
| "constructor_of (Arr p xs) = Inr CArray"
| "constructor_of (Obj p c ps) = Inr c"

text \<open>
  \<^verbatim>\<open>optsVal.every(function (el) { return el.constructor === schemaVal.arrayType })\<close>:
  stops at the first element that answers \<^verbatim>\<open>false\<close>, and throws where the callback throws.
\<close>

fun every_constructor :: "ctor \<Rightarrow> jsval list \<Rightarrow> jserror + bool" where
  "every_constructor c [] = Inr True"
| "every_constructor c (el # els) =
     (case constructor_of el of
        Inl e \<Rightarrow> Inl e
      | Inr c' \<Rightarrow> if c' = c then every_constructor c els else Inr False)"

text \<open>
  What a failing call prints. Each constructor stands for one of the six
  \<^verbatim>\<open>logErrorAndLine\<close>/\<^verbatim>\<open>logError\<close> reports of the source (the message, the values
  shown and the call-site line that follows).
\<close>

datatype diag =
    MissingProperty string
  | UnrecognizedProperty string
  | UndefinedValue string jsval
  | UnrecognizedValue string jsval "jsval list"
  | WrongType string ctor jsval
  | WrongElementType string ctor jsval

text \<open>
  The result of a call that returns: what was printed, and the boolean returned.
  Inside a loop, \<open>None\<close> means that the iteration fell through to the next one.
\<close>

type_synonym returned = "diag list \<times> bool"

text \<open>
  The first loop: \<^verbatim>\<open>for (var prop in schema)\<close>. It runs over the schema's own keys,
  so \<^verbatim>\<open>schema[prop]\<close> finds a value at each of them.
\<close>

fun missing_loop :: "schema \<Rightarrow> jsval object \<Rightarrow> string list \<Rightarrow> returned option" where
  "missing_loop schema opts [] = None"
| "missing_loop schema opts (prop # props) =
     (case map_of schema prop of
        None \<Rightarrow> missing_loop schema opts props
      | Some val \<Rightarrow>
          if \<not> optional val \<and> \<not> hasOwnProperty opts prop
          then Some ([MissingProperty prop], True)
          else missing_loop schema opts props)"

text \<open>The body of the second loop, for one property of \<^verbatim>\<open>opts\<close>.\<close>

definition check_prop :: "schema \<Rightarrow> jsval object \<Rightarrow> string \<Rightarrow> jserror + returned option" where
  "check_prop schema opts prop =
     (if \<not> hasOwnProperty schema prop
      then Inr (Some ([UnrecognizedProperty prop], True))
      else
       (case map_of schema prop of
          None \<Rightarrow> Inl TypeError
        | Some schemaVal \<Rightarrow>
           (let optsVal = getProp opts prop in
            if strict_eq optsVal Undefined \<or>
               (isArray optsVal \<and>
                 (length (elements optsVal) = 0 \<or> indexOf (elements optsVal) Undefined \<noteq> - 1))
            then Inr (Some ([UndefinedValue prop optsVal], True))
            else
             (case schemaPropType schemaVal of
                TVals accepted \<Rightarrow>
                  (if indexOf accepted optsVal = - 1
                   then Inr (Some ([UnrecognizedValue prop optsVal accepted], True))
                   else Inr None)
              | TCtor c \<Rightarrow>
                 (case constructor_of optsVal of
                    Inl e \<Rightarrow> Inl e
                  | Inr c' \<Rightarrow>
                     (if c' \<noteq> c then Inr (Some ([WrongType prop c optsVal], True))
                      else if \<not> isArray optsVal then Inr None
                      else
                       (case arrayType schemaVal of
                          None \<Rightarrow> Inr None
                        | Some elemType \<Rightarrow>
                           (case every_constructor elemType (elements optsVal) of
                              Inl e \<Rightarrow> Inl e
                            | Inr ok \<Rightarrow>
                               (if \<not> ok
                                then Inr (Some ([WrongElementType prop elemType optsVal], True))
                                else Inr None)))))))))"

text \<open>The second loop: \<^verbatim>\<open>for (var prop in opts)\<close>.\<close>

fun props_loop :: "schema \<Rightarrow> jsval object \<Rightarrow> string list \<Rightarrow> jserror + returned option" where
  "props_loop schema opts [] = Inr None"
| "props_loop schema opts (prop # props) =
     (case check_prop schema opts prop of
        Inl e \<Rightarrow> Inl e
      | Inr (Some r) \<Rightarrow> Inr (Some r)
      | Inr None \<Rightarrow> props_loop schema opts props)"

definition illFormedOpts :: "schema \<Rightarrow> jsval object \<Rightarrow> jserror + returned" where
  "illFormedOpts schema opts =
     (case missing_loop schema opts (keys schema) of
        Some r \<Rightarrow> Inr r
      | None \<Rightarrow>
         (case props_loop schema opts (keys opts) of
            Inl e \<Rightarrow> Inl e
          | Inr (Some r) \<Rightarrow> Inr r
          | Inr None \<Rightarrow> Inr ([], False)))"

text \<open>
  The conditions under which the specification calls a candidate well-formed, in its
  words: every required key of the schema is present, every key of the candidate is
  declared, no value is \<^verbatim>\<open>undefined\<close> nor an array containing it, and every value
  matches its declared type and element type, or is one of the permitted values.
\<close>

definition required_missing :: "schema \<Rightarrow> jsval object \<Rightarrow> string \<Rightarrow> bool" where
  "required_missing schema opts prop =
     (case map_of schema prop of
        None \<Rightarrow> False
      | Some val \<Rightarrow> \<not> optional val \<and> \<not> hasOwnProperty opts prop)"

definition required_present :: "schema \<Rightarrow> jsval object \<Rightarrow> bool" where
  "required_present schema opts =
     list_all (\<lambda>prop. \<not> required_missing schema opts prop) (keys schema)"

definition all_declared :: "schema \<Rightarrow> jsval object \<Rightarrow> bool" where
  "all_declared schema opts = list_all (\<lambda>prop. hasOwnProperty schema prop) (keys opts)"

definition is_absent :: "jsval \<Rightarrow> bool" where
  "is_absent v = (v = Undefined \<or> (isArray v \<and> Undefined \<in> set (elements v)))"

definition is_empty_array :: "jsval \<Rightarrow> bool" where
  "is_empty_array v = (isArray v \<and> elements v = [])"

definition matches_rule :: "rule \<Rightarrow> jsval \<Rightarrow> bool" where
  "matches_rule r v =
     (case schemaPropType r of
        TVals accepted \<Rightarrow> list_ex (\<lambda>x. strict_eq x v) accepted
      | TCtor c \<Rightarrow>
          constructor_of v = Inr c \<and>
          (case arrayType r of
             None \<Rightarrow> True
           | Some elemType \<Rightarrow>
               isArray v \<longrightarrow>
               list_all (\<lambda>el. constructor_of el = Inr elemType) (elements v)))"

definition values_match :: "schema \<Rightarrow> jsval object \<Rightarrow> bool" where
  "values_match schema opts =
     list_all (\<lambda>prop. case map_of schema prop of
                        None \<Rightarrow> False
                      | Some r \<Rightarrow> matches_rule r (getProp opts prop)) (keys opts)"

definition well_formed_as_stated :: "schema \<Rightarrow> jsval object \<Rightarrow> bool" where
  "well_formed_as_stated schema opts =
     (required_present schema opts \<and> all_declared schema opts
      \<and> list_all (\<lambda>prop. \<not> is_absent (getProp opts prop)) (keys opts)
      \<and> values_match schema opts)"

text \<open>The same conditions, with the empty array among the values that are refused.\<close>

definition well_formed :: "schema \<Rightarrow> jsval object \<Rightarrow> bool" where
  "well_formed schema opts =
     (required_present schema opts \<and> all_declared schema opts
      \<and> list_all (\<lambda>prop. \<not> is_absent (getProp opts prop)
                          \<and> \<not> is_empty_array (getProp opts prop)) (keys opts)
      \<and> values_match schema opts)"

text \<open>A call returned the boolean \<open>b\<close> (it did not throw).\<close>

fun returns :: "jserror + returned \<Rightarrow> bool \<Rightarrow> bool" where
  "returns (Inl e) b = False"
| "returns (Inr (out, b')) b = (b' = b)"





section \<open>arraysEqual\<close>

text \<open>
  An argument of \<^verbatim>\<open>arraysEqual\<close> is an array (its address and its elements) or
  \<^verbatim>\<open>undefined\<close>, the two cases the source handles; \<open>None\<close> is \<^verbatim>\<open>undefined\<close>.
\<close>

type_synonym jsarray = "nat \<times> jsval list"

text \<open>The \<^verbatim>\<open>for\<close> loop of \<^verbatim>\<open>arraysEqual\<close>, from index \<open>i\<close> up to \<open>aLength\<close>.\<close>

function arraysEqual_loop :: "nat \<Rightarrow> nat \<Rightarrow> jsval list \<Rightarrow> jsval list \<Rightarrow> bool" where
  "arraysEqual_loop i aLength a b =
     (if i < aLength
      then (if \<not> strict_eq (a ! i) (b ! i) then False
            else arraysEqual_loop (Suc i) aLength a b)
      else True)"
  by pat_completeness auto
termination
  by (relation "measure (\<lambda>(i, aLength, a, b). aLength - i)") auto

declare arraysEqual_loop.simps [simp del]

fun arraysEqual :: "jsarray option \<Rightarrow> jsarray option \<Rightarrow> bool" where
  "arraysEqual None None = True"
| "arraysEqual None (Some b) = False"
| "arraysEqual (Some a) None = False"
| "arraysEqual (Some (p, a)) (Some (q, b)) =
     (if p = q then True
      else if length a \<noteq> length b then False
      else arraysEqual_loop 0 (length a) a b)"

section \<open>Numbers and cleanNumber\<close>

text \<open>
  A JavaScript number is a double. A finite double is modelled by the rational number it
  denotes, so the two zeros are one value; \<^verbatim>\<open>NaN\<close> and the infinities are left
  out. An operation on doubles is the exact operation followed by rounding to the
  nearest double, the one with the even significand when two are as near. A double has
  53 significant bits, down to the spacing \<open>2 powi - 1074\<close> of the smallest ones; the
  rounding of numbers beyond the largest double is not modelled.
\<close>

fun bit_length :: "nat \<Rightarrow> nat" where
  "bit_length n = (if n = 0 then 0 else Suc (bit_length (n div 2)))"

declare bit_length.simps [simp del]

text \<open>The exponent \<open>e\<close> with \<open>2 powi e \<le> a < 2 powi (e + 1)\<close>, for a positive \<open>a\<close>.\<close>

definition floor_log2 :: "rat \<Rightarrow> int" where
  "floor_log2 a =
     (let k = int (bit_length (nat (fst (quotient_of a))))
              - int (bit_length (nat (snd (quotient_of a))))
      in if 2 powi k \<le> a then k else k - 1)"

definition round_half_even :: "rat \<Rightarrow> int" where
  "round_half_even x =
     (let f = \<lfloor>x\<rfloor>; r = x - of_int f
      in if r < 1 / 2 then f else if 1 / 2 < r then f + 1 else if even f then f else f + 1)"

definition to_double :: "rat \<Rightarrow> rat" where
  "to_double q =
     (if q = 0 then 0
      else
       (let a = \<bar>q\<bar>;
            e = floor_log2 a;
            ulp = 2 powi (max (e - 52) (- 1074));
            m = round_half_even (a / ulp)
        in sgn q * of_int m * ulp))"

text \<open>\<^verbatim>\<open>x * y\<close> on doubles.\<close>

definition multiply :: "rat \<Rightarrow> rat \<Rightarrow> rat" where
  "multiply x y = to_double (x * y)"

text \<open>\<^verbatim>\<open>x + y\<close> and \<^verbatim>\<open>x / y\<close> on doubles.\<close>

definition add_doubles :: "rat \<Rightarrow> rat \<Rightarrow> rat" where
  "add_doubles x y = to_double (x + y)"

definition divide_doubles :: "rat \<Rightarrow> rat \<Rightarrow> rat" where
  "divide_doubles x y = to_double (x / y)"

text \<open>
  \<^verbatim>\<open>x.toFixed(fractionDigits)\<close> is a string; the model keeps the number that the string
  denotes. From \<open>10 ^ 21\<close> on the string is the usual text of \<open>x\<close>, which denotes \<open>x\<close>.
  Below, it is \<open>n\<close> divided by \<open>10 ^ fractionDigits\<close> for the integer \<open>n\<close> that brings
  this nearest to \<open>x\<close>, the larger \<open>n\<close> when two are as near, and a negative \<open>x\<close> is
  converted as its absolute value behind a minus sign.
\<close>

definition toFixed :: "nat \<Rightarrow> rat \<Rightarrow> rat" where
  "toFixed fractionDigits x =
     (if 10 ^ 21 \<le> \<bar>x\<bar> then x
      else if x < 0
      then - (of_int \<lfloor>- x * 10 ^ fractionDigits + 1 / 2\<rfloor> / 10 ^ fractionDigits)
      else of_int \<lfloor>x * 10 ^ fractionDigits + 1 / 2\<rfloor> / 10 ^ fractionDigits)"

text \<open>\<^verbatim>\<open>Number(string)\<close>: the double nearest to the number that the string denotes.\<close>

definition Number :: "rat \<Rightarrow> rat" where
  "Number denoted = to_double denoted"

definition cleanNumber :: "rat \<Rightarrow> rat" where
  "cleanNumber number = Number (toFixed 13 number)"

section \<open>Profiling: timers and counters\<close>

text \<open>
  \<^verbatim>\<open>_times\<close> and \<^verbatim>\<open>_counts\<close> are JavaScript \<^verbatim>\<open>Map\<close>s. A \<^verbatim>\<open>Map\<close> keeps its
  entries in insertion order: \<^verbatim>\<open>set\<close> on a key that is present replaces the value in
  place, on a new key it appends the entry; \<^verbatim>\<open>forEach\<close> visits the entries in that
  order.
\<close>

type_synonym ('k, 'v) jsmap = "('k \<times> 'v) list"

definition map_get :: "('k, 'v) jsmap \<Rightarrow> 'k \<Rightarrow> 'v option" where
  "map_get m k = map_of m k"

fun map_set :: "'k \<Rightarrow> 'v \<Rightarrow> ('k, 'v) jsmap \<Rightarrow> ('k, 'v) jsmap" where
  "map_set k v [] = [(k, v)]"
| "map_set k v ((k', v') # m) =
     (if k' = k then (k, v) # m else (k', v') # map_set k v m)"

definition map_delete :: "'k \<Rightarrow> ('k, 'v) jsmap \<Rightarrow> ('k, 'v) jsmap" where
  "map_delete k m = filter (\<lambda>entry. fst entry \<noteq> k) m"

definition map_clear :: "('k, 'v) jsmap \<Rightarrow> ('k, 'v) jsmap" where
  "map_clear m = []"

text \<open>
  A reading of \<^verbatim>\<open>process.hrtime()\<close> is the pair \<^verbatim>\<open>[seconds, nanoseconds]\<close>.
  \<^verbatim>\<open>process.hrtime(time)\<close> is the difference between the current reading and
  \<^verbatim>\<open>time\<close>, with the nanoseconds brought back to a non-negative number.
\<close>

type_synonym hrtime = "int \<times> int"

definition hrtime_since :: "hrtime \<Rightarrow> hrtime \<Rightarrow> hrtime" where
  "hrtime_since now time =
     (let sec = fst now - fst time; nsec = snd now - snd time
      in (if nsec < 0 then sec - 1 else sec, if nsec < 0 then nsec + 1000000000 else nsec))"

definition nanoseconds :: "hrtime \<Rightarrow> int" where
  "nanoseconds t = fst t * 1000000000 + snd t"

text \<open>
  The clock counts nanoseconds in 64 bits; a reading is the whole seconds of the count
  and the nanoseconds that remain.
\<close>

definition is_hrtime :: "hrtime \<Rightarrow> bool" where
  "is_hrtime t \<longleftrightarrow>
     0 \<le> fst t \<and> 0 \<le> snd t \<and> snd t < 1000000000 \<and> nanoseconds t < 2 ^ 64"

text \<open>
  A line printed by the profiling functions: \<^verbatim>\<open>label: count\<close>, or
  \<^verbatim>\<open>label: duration ms\<close> with the number that \<^verbatim>\<open>duration.toFixed(3)\<close> denotes.
\<close>

datatype printed = CountLine string nat | TimeLine string rat

type_synonym times = "(string, hrtime) jsmap"

type_synonym counts = "(string, nat) jsmap"

text \<open>\<^verbatim>\<open>time(label)\<close>, called when the clock reads \<open>now\<close>.\<close>

definition time :: "string \<Rightarrow> hrtime \<Rightarrow> times \<Rightarrow> times" where
  "time label now table = map_set label now table"

text \<open>
  \<^verbatim>\<open>durationTuple[0] * 1e3 + durationTuple[1] / 1e6\<close>, on doubles: the product, the
  quotient and the sum are each rounded. The two components of the tuple are whole
  numbers, taken as the doubles that they are below \<open>2 ^ 53\<close>.
\<close>

definition duration_ms :: "hrtime \<Rightarrow> rat" where
  "duration_ms durationTuple =
     add_doubles (multiply (of_int (fst durationTuple)) 1000)
       (divide_doubles (of_int (snd durationTuple)) 1000000)"

text \<open>
  \<^verbatim>\<open>timeEnd(label)\<close>, called when the clock reads \<open>now\<close>: the error thrown or the line
  printed, and the table afterwards. A stored reading is an array, which is truthy, so
  \<^verbatim>\<open>!time\<close> holds exactly when the label is not in the table.
\<close>

definition timeEnd :: "string \<Rightarrow> hrtime \<Rightarrow> times \<Rightarrow> (jserror + printed) \<times> times" where
  "timeEnd label now table =
     (case map_get table label of
        None \<Rightarrow> (Inl NoSuchLabel, table)
      | Some started \<Rightarrow>
         (let durationTuple = hrtime_since now started;
              duration = duration_ms durationTuple
          in (Inr (TimeLine label (toFixed 3 duration)), table)))"

datatype timer_call = CallTime string hrtime | CallTimeEnd string hrtime

text \<open>
  A history of timer calls; a \<^verbatim>\<open>timeEnd\<close> that throws leaves the table as it was, whether
  or not the caller catches the error.
\<close>

fun run_timer :: "timer_call list \<Rightarrow> times \<Rightarrow> times" where
  "run_timer [] table = table"
| "run_timer (CallTime label now # calls) table = run_timer calls (time label now table)"
| "run_timer (CallTimeEnd label now # calls) table =
     run_timer calls (snd (timeEnd label now table))"

text \<open>\<^verbatim>\<open>_counts.get(label) || 0\<close>.\<close>

definition get_or_zero :: "counts \<Rightarrow> string \<Rightarrow> nat" where
  "get_or_zero table label =
     (case map_get table label of None \<Rightarrow> 0 | Some val \<Rightarrow> if val = 0 then 0 else val)"

definition count :: "string \<Rightarrow> counts \<Rightarrow> counts" where
  "count label table = (let val = get_or_zero table label in map_set label (val + 1) table)"

definition countEnd :: "string \<Rightarrow> counts \<Rightarrow> printed list \<times> counts" where
  "countEnd label table =
     (let val = get_or_zero table label
      in ([CountLine label val], map_delete label table))"

definition countEndAll :: "counts \<Rightarrow> printed list \<times> counts" where
  "countEndAll table =
     (map (\<lambda>(label, val). CountLine label val) table, map_clear table)"

datatype counter_call = CallCount string | CallCountEnd string | CallCountEndAll

text \<open>A history of counter calls, from a table and what was printed so far.\<close>

fun run_counter :: "counter_call list \<Rightarrow> printed list \<times> counts \<Rightarrow> printed list \<times> counts" where
  "run_counter [] st = st"
| "run_counter (CallCount label # calls) (out, table) =
     run_counter calls (out, count label table)"
| "run_counter (CallCountEnd label # calls) (out, table) =
     run_counter calls (out @ fst (countEnd label table), snd (countEnd label table))"
| "run_counter (CallCountEndAll # calls) (out, table) =
     run_counter calls (out @ fst (countEndAll table), snd (countEndAll table))"

text \<open>The labels of a list of \<^verbatim>\<open>count\<close> calls, each at its first occurrence.\<close>

fun first_occurrences :: "string list \<Rightarrow> string list" where
  "first_occurrences [] = []"
| "first_occurrences (label # labels) =
     label # filter (\<lambda>l. l \<noteq> label) (first_occurrences labels)"

section \<open>The console printer\<close>

text \<open>
  Strings are lists of characters; the characters the source names are the escape
  character \<^verbatim>\<open>\u001b\<close> and the line feed.
\<close>

definition ESC :: char where
  "ESC = CHR 0x1B"

definition LF :: char where
  "LF = CHR 0x0A"

definition code :: "char \<Rightarrow> nat" where
  "code c = of_char c"

text \<open>The character classes \<^verbatim>\<open>\d\<close>, \<^verbatim>\<open>[A-Z]\<close>, \<^verbatim>\<open>[a-z]\<close> and \<^verbatim>\<open>\w\<close>.\<close>

definition is_digit :: "char \<Rightarrow> bool" where
  "is_digit c = (48 \<le> code c \<and> code c \<le> 57)"

definition is_upper :: "char \<Rightarrow> bool" where
  "is_upper c = (65 \<le> code c \<and> code c \<le> 90)"

definition is_lower :: "char \<Rightarrow> bool" where
  "is_lower c = (97 \<le> code c \<and> code c \<le> 122)"

definition is_word :: "char \<Rightarrow> bool" where
  "is_word c = (is_upper c \<or> is_lower c \<or> is_digit c \<or> c = CHR ''_'')"

text \<open>
  \<^verbatim>\<open>typeof arg === 'string' ? arg : util.inspect(arg, opts)\<close>. The pretty-printer
  \<^verbatim>\<open>util.inspect\<close> with its options is the parameter \<open>inspect\<close>.
\<close>

fun format_arg :: "(jsval \<Rightarrow> string) \<Rightarrow> jsval \<Rightarrow> string" where
  "format_arg inspect (Str s) = s"
| "format_arg inspect arg = inspect arg"

text \<open>\<^verbatim>\<open>/,\n/.test(s)\<close>: a comma immediately followed by a line feed occurs in \<open>s\<close>.\<close>

fun comma_newline :: "string \<Rightarrow> bool" where
  "comma_newline (c # d # s) = ((c = CHR '','' \<and> d = LF) \<or> comma_newline (d # s))"
| "comma_newline s = False"

text \<open>
  The length of the match of \<^verbatim>\<open>/\u001b\[\d\d?m/\<close> at the start of a string, \<open>0\<close> when
  it does not match there: the escape character, a bracket, one or two digits (two when
  an \<^verbatim>\<open>m\<close> follows them) and an \<^verbatim>\<open>m\<close>.
\<close>

fun style_match :: "string \<Rightarrow> nat" where
  "style_match (e # b # d1 # d2 # m # s) =
     (if e = ESC \<and> b = CHR ''['' \<and> is_digit d1
      then (if is_digit d2 \<and> m = CHR ''m'' then 5 else if d2 = CHR ''m'' then 4 else 0)
      else 0)"
| "style_match [e, b, d1, d2] =
     (if e = ESC \<and> b = CHR ''['' \<and> is_digit d1 \<and> d2 = CHR ''m'' then 4 else 0)"
| "style_match s = 0"

text \<open>\<^verbatim>\<open>string.replace(/\u001b\[\d\d?m/g, '')\<close>: the matches are removed from left to right.\<close>

function remove_styles :: "string \<Rightarrow> string" where
  "remove_styles [] = []"
| "remove_styles (c # s) =
     (if style_match (c # s) = 0 then c # remove_styles s
      else remove_styles (drop (style_match (c # s)) (c # s)))"
  by pat_completeness auto
termination
  by (relation "measure length") auto

declare remove_styles.simps(2) [simp del]

definition getStylizedStringLength :: "string \<Rightarrow> nat" where
  "getStylizedStringLength string = length (remove_styles string)"

text \<open>
  The callback of \<^verbatim>\<open>forEach\<close> in \<^verbatim>\<open>prettyPrint\<close>, for the argument \<open>arg\<close> at index
  \<open>i\<close>. Reading \<^verbatim>\<open>formattedArgs[-1]\<close> gives \<^verbatim>\<open>undefined\<close>, whose \<^verbatim>\<open>replace\<close>
  throws.
\<close>

definition prettyPrint_callback ::
  "(jsval \<Rightarrow> string) \<Rightarrow> string list \<Rightarrow> jsval \<Rightarrow> nat \<Rightarrow> jserror + string list" where
  "prettyPrint_callback inspect formattedArgs arg i =
     (let formattedArg = format_arg inspect arg in
      if i = 0 \<or> comma_newline formattedArg then Inr (formattedArgs @ [formattedArg])
      else if formattedArgs = [] then Inl TypeError
      else
       (let prevFormattedArgIdx = length formattedArgs - 1;
            prevFormattedArg = formattedArgs ! prevFormattedArgIdx
        in if getStylizedStringLength prevFormattedArg
                + getStylizedStringLength formattedArg + 1 > 80
           then Inr (formattedArgs @ [formattedArg])
           else Inr (formattedArgs[prevFormattedArgIdx :=
                       prevFormattedArg @ '' '' @ formattedArg])))"

fun prettyPrint_forEach ::
  "(jsval \<Rightarrow> string) \<Rightarrow> string list \<Rightarrow> nat \<Rightarrow> jsval list \<Rightarrow> jserror + string list" where
  "prettyPrint_forEach inspect formattedArgs i [] = Inr formattedArgs"
| "prettyPrint_forEach inspect formattedArgs i (arg # args) =
     (case prettyPrint_callback inspect formattedArgs arg i of
        Inl e \<Rightarrow> Inl e
      | Inr formattedArgs' \<Rightarrow> prettyPrint_forEach inspect formattedArgs' (Suc i) args)"

text \<open>The lines that \<^verbatim>\<open>prettyPrint\<close> hands to \<^verbatim>\<open>console.log\<close>, in order.\<close>

definition prettyPrint :: "(jsval \<Rightarrow> string) \<Rightarrow> jsval list \<Rightarrow> jserror + string list" where
  "prettyPrint inspect args = prettyPrint_forEach inspect [] 0 args"


text \<open>A pretty-printer to run the examples with: it shows every value as \<^verbatim>\<open>{}\<close>.\<close>

definition inspect_braces :: "jsval \<Rightarrow> string" where
  "inspect_braces v = ''{}''"

section \<open>Redirecting the output to a file\<close>

text \<open>
  The part of the process that \<^verbatim>\<open>redirectOutputToFile\<close> touches: the function stored
  in \<^verbatim>\<open>process.stdout.write\<close>, what reached the console, the files with what was written
  to them, the directories, the home directory of the environment and the resolution of
  paths by the file system. Buffering by the stream is not modelled: what is written to
  a stream is in the file.
\<close>

datatype sink = ToConsole | ToFile string | OtherSink nat

record world =
  stdout_write :: sink
  console :: "string list"
  files :: "string \<Rightarrow> string list option"
  directories :: "string set"
  home :: string
  resolved :: "string \<Rightarrow> string"

text \<open>
  \<^verbatim>\<open>path.replace(/^~/, home)\<close>, for a home directory whose name has no dollar sign
  (in a replacement text a dollar sign starts a pattern).
\<close>

fun expandHomeDir :: "world \<Rightarrow> string \<Rightarrow> string" where
  "expandHomeDir w [] = []"
| "expandHomeDir w (c # path) = (if c = CHR ''~'' then home w @ path else c # path)"

text \<open>
  \<^verbatim>\<open>fs.writeFileSync(path)\<close>: creates or overwrites the file (with the text of the
  missing second argument), or throws when \<open>path\<close> is a directory.
\<close>

definition writeFileSync :: "string \<Rightarrow> world \<Rightarrow> (jserror + unit) \<times> world" where
  "writeFileSync path w =
     (if path \<in> directories w then (Inl EISDIR, w)
      else (Inr (), w\<lparr>files := (files w)(path \<mapsto> [''undefined''])\<rparr>))"

text \<open>\<^verbatim>\<open>fs.createWriteStream(path)\<close> opens the file for writing, which empties it.\<close>

definition createWriteStream :: "string \<Rightarrow> world \<Rightarrow> sink \<times> world" where
  "createWriteStream path w = (ToFile path, w\<lparr>files := (files w)(path \<mapsto> [])\<rparr>)"

text \<open>\<^verbatim>\<open>fs.realpathSync(path)\<close> throws when nothing is at \<open>path\<close>.\<close>

definition realpathSync :: "string \<Rightarrow> world \<Rightarrow> jserror + string" where
  "realpathSync path w =
     (if files w path \<noteq> None \<or> path \<in> directories w then Inr (resolved w path)
      else Inl ENOENT)"

text \<open>\<^verbatim>\<open>console.log(line)\<close> calls whatever \<^verbatim>\<open>process.stdout.write\<close> holds.\<close>

definition console_log :: "string \<Rightarrow> world \<Rightarrow> world" where
  "console_log line w =
     (case stdout_write w of
        ToConsole \<Rightarrow> w\<lparr>console := console w @ [line]\<rparr>
      | ToFile path \<Rightarrow>
          w\<lparr>files := (files w)(path \<mapsto>
               (case files w path of None \<Rightarrow> [line] | Some text \<Rightarrow> text @ [line]))\<rparr>
      | OtherSink n \<Rightarrow> w)"

text \<open>\<^verbatim>\<open>exports.log(...)\<close>: \<^verbatim>\<open>prettyPrint\<close>, then \<^verbatim>\<open>console.log\<close> of each line.\<close>

definition exports_log :: "(jsval \<Rightarrow> string) \<Rightarrow> jsval list \<Rightarrow> world \<Rightarrow> (jserror + unit) \<times> world" where
  "exports_log inspect args w =
     (case prettyPrint inspect args of
        Inl e \<Rightarrow> (Inl e, w)
      | Inr formattedArgs \<Rightarrow> (Inr (), foldl (\<lambda>w' line. console_log line w') w formattedArgs))"

text \<open>
  \<^verbatim>\<open>redirectOutputToFile(path, callback)\<close>. The callback runs on the world and returns a
  value or throws; whatever is thrown inside \<^verbatim>\<open>try\<close>, by the callback, by
  \<^verbatim>\<open>fs.realpathSync\<close> or by \<^verbatim>\<open>exports.log\<close>, reaches the \<^verbatim>\<open>catch\<close> block.
\<close>

definition redirectOutputToFile ::
  "(jsval \<Rightarrow> string) \<Rightarrow> string \<Rightarrow> (world \<Rightarrow> (jserror + 'r) \<times> world) \<Rightarrow> world
     \<Rightarrow> (jserror + 'r) \<times> world" where
  "redirectOutputToFile inspect path0 callback w0 =
     (let path = expandHomeDir w0 path0 in
      case writeFileSync path w0 of
        (Inl e, w1) \<Rightarrow> (Inl e, w1)
      | (Inr u, w1) \<Rightarrow>
         (let (writable, w2) = createWriteStream path w1;
              oldWrite = stdout_write w2;
              w3 = w2\<lparr>stdout_write := writable\<rparr>
          in case callback w3 of
               (Inl e, w4) \<Rightarrow> (Inl e, w4\<lparr>stdout_write := oldWrite\<rparr>)
             | (Inr returnVal, w4) \<Rightarrow>
                (let w5 = w4\<lparr>stdout_write := oldWrite\<rparr> in
                 case realpathSync path w5 of
                   Inl e \<Rightarrow> (Inl e, w5\<lparr>stdout_write := oldWrite\<rparr>)
                 | Inr realpath \<Rightarrow>
                    (case exports_log inspect [Str ''Output saved to:'', Str realpath] w5 of
                       (Inl e, w6) \<Rightarrow> (Inl e, w6\<lparr>stdout_write := oldWrite\<rparr>)
                     | (Inr u', w6) \<Rightarrow> (Inr returnVal, w6)))))"

text \<open>The world in which the callback runs: the file is there and empty, the output goes to it.\<close>

definition redirected :: "string \<Rightarrow> world \<Rightarrow> world" where
  "redirected path w =
     (snd (createWriteStream path (snd (writeFileSync path w))))\<lparr>stdout_write := ToFile path\<rparr>"

text \<open>
  A process that prints to the console, with no files yet, and three callbacks: one
  prints two lines and throws, one prints a line and returns a number, one removes the
  output file and returns a number.
\<close>

definition console_world :: world where
  "console_world =
     \<lparr>stdout_write = ToConsole, console = [], files = (\<lambda>path. None), directories = {''/tmp''},
      home = ''/home/danny'', resolved = (\<lambda>path. ''/cwd/'' @ path)\<rparr>"

definition prints_then_throws :: "world \<Rightarrow> (jserror + nat) \<times> world" where
  "prints_then_throws w = (Inl (Thrown ''failed''), console_log ''two'' (console_log ''one'' w))"

definition prints_then_returns :: "world \<Rightarrow> (jserror + nat) \<times> world" where
  "prints_then_returns w = (Inr 7, console_log ''Numbers:'' w)"

definition removes_file_then_returns :: "world \<Rightarrow> (jserror + nat) \<times> world" where
  "removes_file_then_returns w = (Inr 7, w\<lparr>files := (files w)(''out.txt'' := None)\<rparr>)"

section \<open>Case conversion\<close>

text \<open>\<^verbatim>\<open>toUpperCase\<close> and \<^verbatim>\<open>toLowerCase\<close> on one character of the class \<^verbatim>\<open>\w\<close>.\<close>

definition toUpperCase :: "char \<Rightarrow> char" where
  "toUpperCase c = (if is_lower c then char_of (code c - 32) else c)"

definition toLowerCase :: "char \<Rightarrow> char" where
  "toLowerCase c = (if is_upper c then char_of (code c + 32) else c)"

text \<open>
  \<^verbatim>\<open>dashedString.replace(/-(\w)/g, function (match, group1) { return group1.toUpperCase() })\<close>:
  from left to right, a dash followed by a word character is replaced by that character
  in upper case, and the search goes on after the replaced pair. The documentation of
  the repository calls this function \<^verbatim>\<open>kebabToCamelCase\<close>.
\<close>

fun dashedToCamelCase :: "string \<Rightarrow> string" where
  "dashedToCamelCase (c # d # s) =
     (if c = CHR ''-'' \<and> is_word d then toUpperCase d # dashedToCamelCase s
      else c # dashedToCamelCase (d # s))"
| "dashedToCamelCase s = s"

text \<open>
  Modelled from the spec: \<^verbatim>\<open>camelToKebabCase\<close> is documented by the repository but its
  code is not among the sources. The specification describes it as a direct substitution,
  upper-case letter to dash plus lower-case letter.
\<close>

fun camelToKebabCase :: "string \<Rightarrow> string" where
  "camelToKebabCase [] = []"
| "camelToKebabCase (c # s) =
     (if is_upper c then CHR ''-'' # toLowerCase c # camelToKebabCase s
      else c # camelToKebabCase s)"

text \<open>
  An identifier: letters, digits, underscores and dollar signs, not empty, the first
  character not a digit.
\<close>

definition is_identifier :: "string \<Rightarrow> bool" where
  "is_identifier s =
     (s \<noteq> [] \<and> \<not> is_digit (hd s) \<and> list_all (\<lambda>c. is_word c \<or> c = CHR ''$'') s)"

section \<open>Properties of the options validator\<close>

lemma indexOf_from_minus_one:
  "0 \<le> i \<Longrightarrow> indexOf_from i xs x = - 1 \<longleftrightarrow> \<not> list_ex (\<lambda>y. strict_eq y x) xs"
  by (induction xs arbitrary: i) auto

lemma indexOf_minus_one: "indexOf xs x = - 1 \<longleftrightarrow> \<not> list_ex (\<lambda>y. strict_eq y x) xs"
  by (simp add: indexOf_def indexOf_from_minus_one)

lemma strict_eq_Undefined [simp]: "strict_eq v Undefined \<longleftrightarrow> v = Undefined"
  by (cases v) simp_all

lemma strict_eq_Undefined_left [simp]: "strict_eq Undefined v \<longleftrightarrow> v = Undefined"
  by (cases v) simp_all

lemma indexOf_Undefined: "indexOf xs Undefined \<noteq> - 1 \<longleftrightarrow> Undefined \<in> set xs"
  by (auto simp add: indexOf_minus_one list_ex_iff)

lemma every_constructor_True:
  "every_constructor c xs = Inr True \<longleftrightarrow> list_all (\<lambda>el. constructor_of el = Inr c) xs"
  by (induction xs) (auto split: sum.splits)

lemma every_constructor_not_True:
  "every_constructor c xs \<noteq> Inr True \<longleftrightarrow> \<not> list_all (\<lambda>el. constructor_of el = Inr c) xs"
  by (simp add: every_constructor_True)

lemma every_constructor_Inl:
  "every_constructor c xs = Inl e \<Longrightarrow> \<not> list_all (\<lambda>el. constructor_of el = Inr c) xs"
  using every_constructor_True [of c xs] by simp

lemma every_constructor_False:
  "every_constructor c xs = Inr False \<Longrightarrow> \<not> list_all (\<lambda>el. constructor_of el = Inr c) xs"
  using every_constructor_True [of c xs] by simp

lemma hasOwnProperty_map_of: "hasOwnProperty obj prop \<longleftrightarrow> map_of obj prop \<noteq> None"
  by (simp add: hasOwnProperty_def keys_def map_of_eq_None_iff)

lemma check_prop_passes:
  "check_prop schema opts prop = Inr None \<longleftrightarrow>
     (\<exists>r. map_of schema prop = Some r
          \<and> \<not> is_absent (getProp opts prop)
          \<and> \<not> is_empty_array (getProp opts prop)
          \<and> matches_rule r (getProp opts prop))"
  by (auto simp add: check_prop_def hasOwnProperty_map_of Let_def is_absent_def
      is_empty_array_def matches_rule_def indexOf_minus_one list_ex_iff
      every_constructor_True
      split: option.splits ptype.splits sum.splits
      dest: every_constructor_Inl every_constructor_False)

lemma props_loop_passes:
  "props_loop schema opts props = Inr None \<longleftrightarrow>
     (\<forall>prop\<in>set props. check_prop schema opts prop = Inr None)"
  by (induction props) (auto split: sum.splits option.splits)

lemma missing_loop_None:
  "missing_loop schema opts props = None \<longleftrightarrow>
     (\<forall>prop\<in>set props. \<not> required_missing schema opts prop)"
  by (induction props) (auto simp add: required_missing_def split: option.splits)

lemma missing_loop_Some:
  "missing_loop schema opts props = Some r \<Longrightarrow> \<exists>prop. r = ([MissingProperty prop], True)"
  by (induction props) (auto split: option.splits if_splits)

lemma check_prop_Some:
  "check_prop schema opts prop = Inr (Some r) \<Longrightarrow> \<exists>d. r = ([d], True)"
  by (auto simp add: check_prop_def Let_def split: option.splits ptype.splits sum.splits if_splits)

lemma props_loop_Some:
  "props_loop schema opts props = Inr (Some r) \<Longrightarrow> \<exists>d. r = ([d], True)"
  by (induction props) (auto split: sum.splits option.splits dest: check_prop_Some)










text \<open>
  C1 (amended). For every schema and candidate, \<^verbatim>\<open>illFormedOpts\<close> returns
  \<^verbatim>\<open>false\<close> if and only if every required key of the schema is present in the
  candidate, every key of the candidate is declared in the schema, no value of the
  candidate is \<^verbatim>\<open>undefined\<close>, an array containing \<^verbatim>\<open>undefined\<close> or an empty array,
  and every value matches its declared type and element type, or is one of the permitted
  values.
\<close>

theorem illFormedOpts_false_iff_well_formed:
  "returns (illFormedOpts schema opts) False \<longleftrightarrow> well_formed schema opts"
proof -
  have "returns (illFormedOpts schema opts) False \<longleftrightarrow>
          missing_loop schema opts (keys schema) = None
          \<and> props_loop schema opts (keys opts) = Inr None"
    by (auto simp add: illFormedOpts_def split: option.splits sum.splits
        dest: missing_loop_Some props_loop_Some)
  also have "\<dots> \<longleftrightarrow> well_formed schema opts"
    by (auto simp add: missing_loop_None props_loop_passes check_prop_passes well_formed_def
        required_present_def all_declared_def values_match_def list_all_iff
        hasOwnProperty_map_of split: option.splits)
  finally show ?thesis .
qed

text \<open>
  The schema of the source's documentation, and a candidate that conforms to it: the
  optional \<^verbatim>\<open>str\<close> is left out.
\<close>

theorem illFormedOpts_false_iff_well_formed_witness:
  "well_formed
     [(''num'', TypeTag CNumber),
      (''list'', Descriptor (TCtor CArray) False None),
      (''strings'', Descriptor (TCtor CArray) False (Some CString)),
      (''str'', Descriptor (TCtor CString) True None),
      (''val'', OneOf [Str ''red'', Str ''yellow'', Str ''blue''])]
     [(''num'', Num 7),
      (''list'', Arr 1 [Num 1, Str ''two'']),
      (''strings'', Arr 2 [Str ''a'', Str ''b'']),
      (''val'', Str ''yellow'')]
   \<and> returns (illFormedOpts
     [(''num'', TypeTag CNumber),
      (''list'', Descriptor (TCtor CArray) False None),
      (''strings'', Descriptor (TCtor CArray) False (Some CString)),
      (''str'', Descriptor (TCtor CString) True None),
      (''val'', OneOf [Str ''red'', Str ''yellow'', Str ''blue''])]
     [(''num'', Num 7),
      (''list'', Arr 1 [Num 1, Str ''two'']),
      (''strings'', Arr 2 [Str ''a'', Str ''b'']),
      (''val'', Str ''yellow'')]) False"
proof -
  have wf: "well_formed
     [(''num'', TypeTag CNumber),
      (''list'', Descriptor (TCtor CArray) False None),
      (''strings'', Descriptor (TCtor CArray) False (Some CString)),
      (''str'', Descriptor (TCtor CString) True None),
      (''val'', OneOf [Str ''red'', Str ''yellow'', Str ''blue''])]
     [(''num'', Num 7),
      (''list'', Arr 1 [Num 1, Str ''two'']),
      (''strings'', Arr 2 [Str ''a'', Str ''b'']),
      (''val'', Str ''yellow'')]"
    by code_simp
  from wf show ?thesis
    using illFormedOpts_false_iff_well_formed by blast
qed

text \<open>
  C1 as stated fails on an empty array: the candidate \<^verbatim>\<open>{ list: [] }\<close> meets every
  condition the claim lists for the schema \<^verbatim>\<open>{ list: Array }\<close>, and
  \<^verbatim>\<open>illFormedOpts\<close> returns \<^verbatim>\<open>true\<close>.
\<close>

theorem illFormedOpts_empty_array_counterexample:
  "well_formed_as_stated [(''list'', TypeTag CArray)] [(''list'', Arr 0 [])]
   \<and> illFormedOpts [(''list'', TypeTag CArray)] [(''list'', Arr 0 [])]
       = Inr ([UndefinedValue ''list'' (Arr 0 [])], True)"
  by code_simp




section \<open>Properties of the counters\<close>

lemma map_get_map_set:
  "map_get (map_set k v m) k' = (if k' = k then Some v else map_get m k')"
  by (induction m) (auto simp add: map_get_def)

lemma map_get_map_delete:
  "map_get (map_delete k m) k' = (if k' = k then None else map_get m k')"
  by (induction m) (auto simp add: map_get_def map_delete_def)

lemma map_get_in_set: "map_get m k = Some v \<Longrightarrow> (k, v) \<in> set m"
  by (simp add: map_get_def map_of_SomeD)

lemma set_map_set: "set (map_set k v m) \<subseteq> insert (k, v) (set m)"
  by (induction m) (auto split: if_splits)

lemma set_map_delete: "set (map_delete k m) \<subseteq> set m"
  by (auto simp add: map_delete_def)

lemma map_get_tabulate:
  "map_get (map (\<lambda>x. (x, g x)) ks) l = (if l \<in> set ks then Some (g l) else None)"
  by (induction ks) (auto simp add: map_get_def)

lemma map_set_tabulate_present:
  "l \<in> set ks \<Longrightarrow> distinct ks \<Longrightarrow>
   map_set l v (map (\<lambda>x. (x, g x)) ks) = map (\<lambda>x. (x, if x = l then v else g x)) ks"
  by (induction ks) auto

lemma map_set_tabulate_absent:
  "l \<notin> set ks \<Longrightarrow>
   map_set l v (map (\<lambda>x. (x, g x)) ks) = map (\<lambda>x. (x, g x)) ks @ [(l, v)]"
  by (induction ks) auto

lemma set_first_occurrences [simp]: "set (first_occurrences ls) = set ls"
  by (induction ls) auto

lemma distinct_first_occurrences [simp]: "distinct (first_occurrences ls)"
  by (induction ls) auto

lemma first_occurrences_snoc:
  "first_occurrences (ls @ [l]) =
     (if l \<in> set ls then first_occurrences ls else first_occurrences ls @ [l])"
  by (induction ls) auto

lemma run_counter_append:
  "run_counter (xs @ ys) st = run_counter ys (run_counter xs st)"
  by (induction xs st rule: run_counter.induct) auto

lemma count_tabulate:
  "count l (map (\<lambda>x. (x, count_list ls x)) (first_occurrences ls))
     = map (\<lambda>x. (x, count_list (ls @ [l]) x)) (first_occurrences (ls @ [l]))"
proof (cases "l \<in> set ls")
  case True
  then show ?thesis
    by (simp add: count_def get_or_zero_def map_get_tabulate Let_def map_set_tabulate_present
        first_occurrences_snoc)
next
  case False
  then show ?thesis
    by (auto simp add: count_def get_or_zero_def map_get_tabulate Let_def
        map_set_tabulate_absent first_occurrences_snoc)
qed

lemma run_counter_counts:
  "run_counter (map CallCount ls) (out, []) =
     (out, map (\<lambda>x. (x, count_list ls x)) (first_occurrences ls))"
proof (induction ls rule: rev_induct)
  case Nil
  then show ?case by simp
next
  case (snoc l ls)
  then show ?case by (simp add: run_counter_append count_tabulate)
qed


lemma count_positive:
  "\<forall>(l, v)\<in>set table. 0 < v \<Longrightarrow> \<forall>(l, v)\<in>set (count label table). 0 < v"
  using set_map_set [of label "get_or_zero table label + 1" table]
  by (auto simp add: count_def Let_def)

lemma countEnd_positive:
  "\<forall>(l, v)\<in>set table. 0 < v \<Longrightarrow> \<forall>(l, v)\<in>set (snd (countEnd label table)). 0 < v"
  by (auto simp add: countEnd_def Let_def map_delete_def)

lemma run_counter_positive:
  "\<forall>(l, v)\<in>set table. 0 < v \<Longrightarrow>
   \<forall>(l, v)\<in>set (snd (run_counter calls (out, table))). 0 < v"
proof (induction calls arbitrary: out table)
  case Nil
  then show ?case by simp
next
  case (Cons call calls)
  show ?case
  proof (cases call)
    case (CallCount label)
    then show ?thesis
      using Cons.IH [OF count_positive [OF Cons.prems]] by simp
  next
    case (CallCountEnd label)
    then show ?thesis
      using Cons.IH [OF countEnd_positive [OF Cons.prems]] by simp
  next
    case CallCountEndAll
    then show ?thesis
      using Cons.IH [of "[]"] by (simp add: countEndAll_def map_clear_def)
  qed
qed

lemma countEnd_removes: "map_get (snd (countEnd label table)) label = None"
  by (simp add: countEnd_def Let_def map_get_map_delete)

lemma countEnd_prints:
  "fst (countEnd label table)
     = [CountLine label (case map_get table label of None \<Rightarrow> 0 | Some val \<Rightarrow> val)]"
  by (simp add: countEnd_def Let_def get_or_zero_def split: option.splits)

text \<open>
  C5. \<^verbatim>\<open>countEnd(label)\<close> prints the label with its current count, \<open>0\<close> when the
  label is not in the table, and afterwards the label is not in the table while every
  other label is as before; after any list \<open>ls\<close> of \<^verbatim>\<open>count\<close> calls on the empty table
  it prints the number of occurrences of the label in \<open>ls\<close>, which is \<open>0\<close> for a label
  that was never counted. \<^verbatim>\<open>countEndAll\<close> prints every entry of the table in the order
  of the table and leaves the table empty; after the \<^verbatim>\<open>count\<close> calls \<open>ls\<close> it prints
  each label of \<open>ls\<close> once, in the order of first occurrence, with its number of
  occurrences, and no line for a label outside \<open>ls\<close>; a second \<^verbatim>\<open>countEndAll\<close> right
  after it prints nothing more.
\<close>

theorem counters_report_and_reset:
  "fst (countEnd label table)
     = [CountLine label (case map_get table label of None \<Rightarrow> 0 | Some val \<Rightarrow> val)]
   \<and> map_get (snd (countEnd label table)) label = None
   \<and> (\<forall>l. l \<noteq> label \<longrightarrow> map_get (snd (countEnd label table)) l = map_get table l)
   \<and> fst (run_counter (map CallCount ls @ [CallCountEnd label]) ([], []))
       = [CountLine label (count_list ls label)]
   \<and> (label \<notin> set ls \<longrightarrow>
        fst (run_counter (map CallCount ls @ [CallCountEnd label]) ([], []))
          = [CountLine label 0])
   \<and> countEndAll table = (map (\<lambda>(l, val). CountLine l val) table, [])
   \<and> run_counter (map CallCount ls @ [CallCountEndAll]) ([], [])
       = (map (\<lambda>l. CountLine l (count_list ls l)) (first_occurrences ls), [])
   \<and> (label \<notin> set ls \<longrightarrow>
        (\<forall>n. CountLine label n
               \<notin> set (fst (run_counter (map CallCount ls @ [CallCountEndAll]) ([], [])))))
   \<and> run_counter (map CallCount ls @ [CallCountEndAll, CallCountEndAll]) ([], [])
       = run_counter (map CallCount ls @ [CallCountEndAll]) ([], [])"
proof -
  have c1: "fst (countEnd label table)
     = [CountLine label (case map_get table label of None \<Rightarrow> 0 | Some val \<Rightarrow> val)]"
    by (rule countEnd_prints)
  have c2: "map_get (snd (countEnd label table)) label = None"
    by (rule countEnd_removes)
  have c3: "\<forall>l. l \<noteq> label \<longrightarrow> map_get (snd (countEnd label table)) l = map_get table l"
    by (simp add: countEnd_def Let_def map_get_map_delete)
  have c4: "fst (run_counter (map CallCount ls @ [CallCountEnd label]) ([], []))
       = [CountLine label (count_list ls label)]"
    by (simp add: run_counter_append run_counter_counts countEnd_prints map_get_tabulate
        count_list_0_iff)
  have c5: "label \<notin> set ls \<longrightarrow>
        fst (run_counter (map CallCount ls @ [CallCountEnd label]) ([], []))
          = [CountLine label 0]"
    using c4 by (simp add: count_list_0_iff)
  have c6: "countEndAll table = (map (\<lambda>(l, val). CountLine l val) table, [])"
    by (simp add: countEndAll_def map_clear_def)
  have c7: "run_counter (map CallCount ls @ [CallCountEndAll]) ([], [])
       = (map (\<lambda>l. CountLine l (count_list ls l)) (first_occurrences ls), [])"
    by (simp add: run_counter_append run_counter_counts countEndAll_def map_clear_def comp_def)
  have c8: "label \<notin> set ls \<longrightarrow>
        (\<forall>n. CountLine label n
               \<notin> set (fst (run_counter (map CallCount ls @ [CallCountEndAll]) ([], []))))"
    unfolding c7 by auto
  have c9: "run_counter (map CallCount ls @ [CallCountEndAll, CallCountEndAll]) ([], [])
       = run_counter (map CallCount ls @ [CallCountEndAll]) ([], [])"
  proof -
    have split: "map CallCount ls @ [CallCountEndAll, CallCountEndAll]
            = (map CallCount ls @ [CallCountEndAll]) @ [CallCountEndAll]"
      by simp
    have "run_counter (map CallCount ls @ [CallCountEndAll, CallCountEndAll]) ([], [])
            = run_counter [CallCountEndAll]
                (run_counter (map CallCount ls @ [CallCountEndAll]) ([], []))"
      unfolding split by (rule run_counter_append)
    also have "\<dots> = run_counter (map CallCount ls @ [CallCountEndAll]) ([], [])"
      unfolding c7 by (simp add: countEndAll_def map_clear_def)
    finally show ?thesis .
  qed
  from c1 c2 c3 c4 c5 c6 c7 c8 c9 show ?thesis by (intro conjI)
qed


theorem counters_report_and_reset_witness:
  "run_counter (map CallCount [''even'', ''odd'', ''even'', ''odd''] @ [CallCountEndAll])
       ([], [])
     = ([CountLine ''even'' 2, CountLine ''odd'' 2], [])
   \<and> fst (run_counter (map CallCount [''even'', ''odd'', ''even'', ''odd'']
         @ [CallCountEnd ''never'']) ([], []))
     = [CountLine ''never'' 0]
   \<and> (\<forall>n. CountLine ''never'' n \<notin> set (fst (run_counter
         (map CallCount [''even'', ''odd'', ''even'', ''odd''] @ [CallCountEndAll]) ([], []))))
   \<and> map_get (snd (countEnd ''odd'' [(''even'', 2), (''odd'', 2)])) ''even'' = Some 2"
proof -
  note scenario = counters_report_and_reset
      [where ls = "[''even'', ''odd'', ''even'', ''odd'']" and label = "''never''"]
  have never: "''never'' \<notin> set [''even'', ''odd'', ''even'', ''odd'']"
    by simp
  have e: "map (\<lambda>l. CountLine l (count_list [''even'', ''odd'', ''even'', ''odd''] l))
             (first_occurrences [''even'', ''odd'', ''even'', ''odd''])
           = [CountLine ''even'' 2, CountLine ''odd'' 2]"
    by simp
  have w1: "run_counter (map CallCount [''even'', ''odd'', ''even'', ''odd''] @ [CallCountEndAll])
       ([], [])
     = ([CountLine ''even'' 2, CountLine ''odd'' 2], [])"
    using scenario [THEN conjunct2, THEN conjunct2, THEN conjunct2, THEN conjunct2,
        THEN conjunct2, THEN conjunct2, THEN conjunct1] e
    by simp
  have w2: "fst (run_counter (map CallCount [''even'', ''odd'', ''even'', ''odd'']
         @ [CallCountEnd ''never'']) ([], []))
     = [CountLine ''never'' 0]"
    using scenario [THEN conjunct2, THEN conjunct2, THEN conjunct2, THEN conjunct2,
        THEN conjunct1, rule_format, OF never] .
  have w3: "\<forall>n. CountLine ''never'' n \<notin> set (fst (run_counter
         (map CallCount [''even'', ''odd'', ''even'', ''odd''] @ [CallCountEndAll]) ([], [])))"
    using scenario [THEN conjunct2, THEN conjunct2, THEN conjunct2, THEN conjunct2,
        THEN conjunct2, THEN conjunct2, THEN conjunct2, THEN conjunct1, rule_format, OF never]
    by blast
  have ne: "''even'' \<noteq> ''odd''"
    by simp
  have w4: "map_get (snd (countEnd ''odd'' [(''even'', 2), (''odd'', 2)])) ''even'' = Some 2"
    using counters_report_and_reset [where table = "[(''even'', 2), (''odd'', 2)]"
        and label = "''odd''", THEN conjunct2, THEN conjunct2, THEN conjunct1, rule_format, OF ne]
    by (simp add: map_get_def)
  from w1 w2 w3 w4 show ?thesis by (intro conjI)
qed

text \<open>
  C10. After any history of \<^verbatim>\<open>count\<close>, \<^verbatim>\<open>countEnd\<close> and \<^verbatim>\<open>countEndAll\<close> calls on
  the empty table, every label in the table maps to a strictly positive number.
  \<^verbatim>\<open>count\<close> creates an absent label at \<open>1\<close> and increments a present one;
  \<^verbatim>\<open>countEnd\<close> and \<^verbatim>\<open>countEndAll\<close> remove labels; an absent label reads as \<open>0\<close>.
\<close>

theorem counter_table_positive:
  "(\<forall>l val. map_get (snd (run_counter calls (out, []))) l = Some val \<longrightarrow> 0 < val)
   \<and> (map_get table label = None \<longrightarrow> map_get (count label table) label = Some 1)
   \<and> (\<forall>val. map_get table label = Some val \<longrightarrow>
          map_get (count label table) label = Some (val + 1))
   \<and> map_get (snd (countEnd label table)) label = None
   \<and> (\<forall>l. map_get (snd (countEndAll table)) l = None)
   \<and> (map_get table label = None \<longrightarrow> get_or_zero table label = 0)"
proof -
  have inv: "\<forall>(l, v)\<in>set (snd (run_counter calls (out, []))). 0 < v"
    using run_counter_positive [of "[]" calls out] by simp
  have c1: "\<forall>l val. map_get (snd (run_counter calls (out, []))) l = Some val \<longrightarrow> 0 < val"
    using inv map_get_in_set by fastforce
  have c2: "map_get table label = None \<longrightarrow> map_get (count label table) label = Some 1"
    by (simp add: count_def Let_def get_or_zero_def map_get_map_set)
  have c3: "\<forall>val. map_get table label = Some val \<longrightarrow>
          map_get (count label table) label = Some (val + 1)"
    by (simp add: count_def Let_def get_or_zero_def map_get_map_set)
  have c4: "map_get (snd (countEnd label table)) label = None"
    by (rule countEnd_removes)
  have c5: "\<forall>l. map_get (snd (countEndAll table)) l = None"
    by (simp add: countEndAll_def map_clear_def map_get_def)
  have c6: "map_get table label = None \<longrightarrow> get_or_zero table label = 0"
    by (simp add: get_or_zero_def)
  from c1 c2 c3 c4 c5 c6 show ?thesis by (intro conjI)
qed

theorem counter_table_positive_witness:
  "map_get (snd (run_counter
       [CallCount ''a'', CallCount ''b'', CallCountEnd ''a'', CallCount ''b'',
        CallCountEndAll, CallCount ''c''] ([], []))) ''c'' = Some 1
   \<and> map_get (count ''x'' []) ''x'' = Some 1
   \<and> map_get (count ''x'' [(''x'', 4)]) ''x'' = Some 5
   \<and> get_or_zero [] ''x'' = 0"
proof -
  have h1: "map_get (snd (run_counter
       [CallCount ''a'', CallCount ''b'', CallCountEnd ''a'', CallCount ''b'',
        CallCountEndAll, CallCount ''c''] ([], []))) ''c'' = Some 1"
    by code_simp
  have p1: "(0::nat) < 1"
    using counter_table_positive [where out = "[]" and calls =
        "[CallCount ''a'', CallCount ''b'', CallCountEnd ''a'', CallCount ''b'',
          CallCountEndAll, CallCount ''c'']", THEN conjunct1, rule_format, OF h1] .
  have h2: "map_get [] ''x'' = (None :: nat option)"
    by (simp add: map_get_def)
  note empty = counter_table_positive [where table = "[]" and label = "''x''"]
  have w2: "map_get (count ''x'' []) ''x'' = Some 1"
    using empty [THEN conjunct2, THEN conjunct1, rule_format, OF h2] .
  have w4: "get_or_zero [] ''x'' = 0"
    using empty [THEN conjunct2, THEN conjunct2, THEN conjunct2, THEN conjunct2, THEN conjunct2,
        rule_format, OF h2] .
  have h3: "map_get [(''x'', 4)] ''x'' = Some (4::nat)"
    by (simp add: map_get_def)
  have w3: "map_get (count ''x'' [(''x'', 4)]) ''x'' = Some 5"
    using counter_table_positive [where table = "[(''x'', 4)]" and label = "''x''",
        THEN conjunct2, THEN conjunct2, THEN conjunct1, rule_format, OF h3]
    by simp
  from h1 p1 w2 w3 w4 show ?thesis by (intro conjI)
qed


section \<open>Properties of the case conversion\<close>

lemma toUpperCase_toLowerCase: "is_upper c \<Longrightarrow> toUpperCase (toLowerCase c) = c"
  by (simp add: toUpperCase_def toLowerCase_def is_upper_def is_lower_def code_def)

lemma is_word_toLowerCase: "is_upper c \<Longrightarrow> is_word (toLowerCase c)"
  by (simp add: toLowerCase_def is_word_def is_upper_def is_lower_def code_def)

lemma dashedToCamelCase_no_dash:
  "c \<noteq> CHR ''-'' \<Longrightarrow> dashedToCamelCase (c # s) = c # dashedToCamelCase s"
  by (cases s) simp_all

lemma kebab_round_trip:
  "CHR ''-'' \<notin> set s \<Longrightarrow> dashedToCamelCase (camelToKebabCase s) = s"
proof (induction s)
  case Nil
  then show ?case by simp
next
  case (Cons c s)
  then have ih: "dashedToCamelCase (camelToKebabCase s) = s" and c: "c \<noteq> CHR ''-''"
    by auto
  show ?case
  proof (cases "is_upper c")
    case True
    then show ?thesis
      using ih by (simp add: is_word_toLowerCase toUpperCase_toLowerCase)
  next
    case False
    then show ?thesis
      using ih c by (simp add: dashedToCamelCase_no_dash)
  qed
qed

lemma is_identifier_no_dash: "is_identifier s \<Longrightarrow> CHR ''-'' \<notin> set s"
proof
  assume id: "is_identifier s" and mem: "CHR ''-'' \<in> set s"
  from id have "\<forall>c\<in>set s. is_word c \<or> c = CHR ''$''"
    by (simp add: is_identifier_def list_all_iff)
  with mem have "is_word (CHR ''-'') \<or> CHR ''-'' = CHR ''$''"
    by blast
  then show False
    by (simp add: is_word_def is_upper_def is_lower_def is_digit_def code_def)
qed

text \<open>
  C7. The conversion exists in both directions, and for every identifier \<open>s\<close> (letters,
  digits, underscores and dollar signs, the first character not a digit, whatever its
  casing) converting to kebab case and back to camel case gives \<open>s\<close> again. The law holds
  for every string without a dash, and an identifier has none.
\<close>

theorem kebab_camel_round_trip:
  "is_identifier s \<Longrightarrow> dashedToCamelCase (camelToKebabCase s) = s"
  by (rule kebab_round_trip) (rule is_identifier_no_dash)

theorem kebab_camel_round_trip_witness:
  "is_identifier ''myLongVariableName''
   \<and> camelToKebabCase ''myLongVariableName'' = ''my-long-variable-name''
   \<and> dashedToCamelCase ''my-long-variable-name'' = ''myLongVariableName''
   \<and> dashedToCamelCase (camelToKebabCase ''myLongVariableName'') = ''myLongVariableName''"
proof -
  have id: "is_identifier ''myLongVariableName''"
    by code_simp
  have kebab: "camelToKebabCase ''myLongVariableName'' = ''my-long-variable-name''"
    by code_simp
  have camel: "dashedToCamelCase ''my-long-variable-name'' = ''myLongVariableName''"
    by code_simp
  from id kebab camel kebab_camel_round_trip [OF id] show ?thesis
    by (intro conjI)
qed

section \<open>Properties of the console printer\<close>

lemma style_match_le: "style_match s \<le> length s"
  by (induction s rule: style_match.induct) auto

lemma style_match_space [simp]: "style_match (CHR '' '' # y) = 0"
  by (induction "CHR '' '' # y" rule: style_match.induct) (auto simp add: ESC_def)

lemma style_match_space1: "style_match (a # CHR '' '' # y) = 0"
  by (cases y rule: style_match.cases) (auto simp add: is_digit_def code_def)

lemma style_match_space2: "style_match (a # b # CHR '' '' # y) = 0"
  by (cases y rule: style_match.cases) (auto simp add: is_digit_def code_def)

lemma style_match_space3: "style_match (a # b # c # CHR '' '' # y) = 0"
  by (cases y rule: style_match.cases) (auto simp add: is_digit_def code_def)

lemma style_match_space4:
  "style_match (e # b # d1 # d2 # CHR '' '' # y) = style_match [e, b, d1, d2]"
  by (auto simp add: is_digit_def code_def)

lemma style_match_before_space: "style_match (x @ CHR '' '' # y) = style_match x"
  by (induction x rule: style_match.induct)
    (simp_all add: style_match_space1 style_match_space2 style_match_space3
      style_match_space4)

lemma drop_within: "n \<le> length xs \<Longrightarrow> drop n (xs @ ys) = drop n xs @ ys"
  by simp

lemma remove_styles_space:
  "remove_styles (x @ CHR '' '' # y) = remove_styles x @ CHR '' '' # remove_styles y"
proof (induction x rule: remove_styles.induct)
  case 1
  show ?case by (simp add: remove_styles.simps(2))
next
  case (2 c s)
  show ?case
  proof (cases "style_match (c # s) = 0")
    case True
    then have "style_match ((c # s) @ CHR '' '' # y) = 0"
      by (simp only: style_match_before_space)
    then have "remove_styles ((c # s) @ CHR '' '' # y) = c # remove_styles (s @ CHR '' '' # y)"
      by (simp add: remove_styles.simps(2))
    with True 2 show ?thesis
      by (simp add: remove_styles.simps(2))
  next
    case False
    have n: "style_match ((c # s) @ CHR '' '' # y) = style_match (c # s)"
      by (rule style_match_before_space)
    have "remove_styles ((c # s) @ CHR '' '' # y)
            = remove_styles (drop (style_match (c # s)) ((c # s) @ CHR '' '' # y))"
      using False n by (simp add: remove_styles.simps(2))
    also have "drop (style_match (c # s)) ((c # s) @ CHR '' '' # y)
            = drop (style_match (c # s)) (c # s) @ CHR '' '' # y"
      using style_match_le [of "c # s"] by (rule drop_within)
    also have "remove_styles (drop (style_match (c # s)) (c # s) @ CHR '' '' # y)
            = remove_styles (drop (style_match (c # s)) (c # s)) @ CHR '' '' # remove_styles y"
      using False 2 by simp
    also have "remove_styles (drop (style_match (c # s)) (c # s)) = remove_styles (c # s)"
      using False by (simp add: remove_styles.simps(2))
    finally show ?thesis .
  qed
qed

lemma getStylizedStringLength_joined:
  "getStylizedStringLength (x @ '' '' @ y)
     = getStylizedStringLength x + 1 + getStylizedStringLength y"
  by (simp add: getStylizedStringLength_def remove_styles_space)

lemma update_last: "xs \<noteq> [] \<Longrightarrow> xs[length xs - Suc 0 := v] = butlast xs @ [v]"
  by (induction xs rule: rev_induct) simp_all

lemma prettyPrint_callback_later:
  "i \<noteq> 0 \<Longrightarrow> lines \<noteq> [] \<Longrightarrow>
   prettyPrint_callback inspect lines arg i =
     Inr (if comma_newline (format_arg inspect arg) then lines @ [format_arg inspect arg]
          else if getStylizedStringLength (last lines @ '' '' @ format_arg inspect arg) \<le> 80
          then butlast lines @ [last lines @ '' '' @ format_arg inspect arg]
          else lines @ [format_arg inspect arg])"
  by (simp add: prettyPrint_callback_def Let_def update_last last_conv_nth
      getStylizedStringLength_joined del: append.simps)

lemma prettyPrint_callback_first:
  "prettyPrint_callback inspect lines arg 0 = Inr (lines @ [format_arg inspect arg])"
  by (simp add: prettyPrint_callback_def Let_def)

lemma prettyPrint_callback_total:
  "i = 0 \<or> lines \<noteq> [] \<Longrightarrow>
   \<exists>lines'. prettyPrint_callback inspect lines arg i = Inr lines' \<and> lines' \<noteq> []"
  by (cases "i = 0") (auto simp add: prettyPrint_callback_first prettyPrint_callback_later)

lemma prettyPrint_forEach_total:
  "i = 0 \<or> lines \<noteq> [] \<Longrightarrow>
   \<exists>lines'. prettyPrint_forEach inspect lines i args = Inr lines'
           \<and> (args \<noteq> [] \<or> lines \<noteq> [] \<longrightarrow> lines' \<noteq> [])"
proof (induction args arbitrary: lines i)
  case Nil
  then show ?case by simp
next
  case (Cons arg args)
  from prettyPrint_callback_total [OF Cons.prems]
  obtain step where step: "prettyPrint_callback inspect lines arg i = Inr step" "step \<noteq> []"
    by blast
  from Cons.IH [of "Suc i" step] step(2)
  obtain lines' where "prettyPrint_forEach inspect step (Suc i) args = Inr lines'" "lines' \<noteq> []"
    by (cases args) auto
  with step show ?case by simp
qed






section \<open>Properties of redirecting the output\<close>

lemma prettyPrint_total: "\<exists>lines. prettyPrint inspect args = Inr lines"
  using prettyPrint_forEach_total [of 0 "[]" inspect args] by (auto simp add: prettyPrint_def)

lemma stdout_write_console_log [simp]:
  "stdout_write (console_log line w) = stdout_write w"
  by (simp add: console_log_def split: sink.splits)

lemma stdout_write_logged [simp]:
  "stdout_write (foldl (\<lambda>w' line. console_log line w') w lines) = stdout_write w"
  by (induction lines arbitrary: w) simp_all

lemma log_returns:
  "\<exists>lines. prettyPrint inspect args = Inr lines
     \<and> exports_log inspect args w = (Inr (), foldl (\<lambda>w' line. console_log line w') w lines)"
  using prettyPrint_total [of inspect args] by (auto simp add: exports_log_def)

lemma redirect_directory:
  "expandHomeDir w path \<in> directories w \<Longrightarrow>
   redirectOutputToFile inspect path callback w = (Inl EISDIR, w)"
  by (simp add: redirectOutputToFile_def writeFileSync_def Let_def)

lemma stdout_write_before [simp]:
  "stdout_write (snd (createWriteStream p (snd (writeFileSync p w)))) = stdout_write w"
  by (simp add: createWriteStream_def writeFileSync_def)

lemma redirect_callback_throws:
  "expandHomeDir w path \<notin> directories w \<Longrightarrow>
   callback (redirected (expandHomeDir w path) w) = (Inl e, w') \<Longrightarrow>
   redirectOutputToFile inspect path callback w = (Inl e, w'\<lparr>stdout_write := stdout_write w\<rparr>)"
  by (simp add: redirectOutputToFile_def redirected_def Let_def writeFileSync_def
      createWriteStream_def)

lemma redirect_realpath_throws:
  "expandHomeDir w path \<notin> directories w \<Longrightarrow>
   callback (redirected (expandHomeDir w path) w) = (Inr v, w') \<Longrightarrow>
   realpathSync (expandHomeDir w path) (w'\<lparr>stdout_write := stdout_write w\<rparr>) = Inl e \<Longrightarrow>
   redirectOutputToFile inspect path callback w = (Inl e, w'\<lparr>stdout_write := stdout_write w\<rparr>)"
  by (simp add: redirectOutputToFile_def redirected_def Let_def writeFileSync_def
      createWriteStream_def)

lemma redirect_returns:
  "expandHomeDir w path \<notin> directories w \<Longrightarrow>
   callback (redirected (expandHomeDir w path) w) = (Inr v, w') \<Longrightarrow>
   realpathSync (expandHomeDir w path) (w'\<lparr>stdout_write := stdout_write w\<rparr>) = Inr abs_path \<Longrightarrow>
   \<exists>lines. prettyPrint inspect [Str ''Output saved to:'', Str abs_path] = Inr lines
     \<and> redirectOutputToFile inspect path callback w
         = (Inr v, foldl (\<lambda>w' line. console_log line w')
                     (w'\<lparr>stdout_write := stdout_write w\<rparr>) lines)"
  using log_returns [of inspect "[Str ''Output saved to:'', Str abs_path]"
      "w'\<lparr>stdout_write := stdout_write w\<rparr>"]
  by (auto simp add: redirectOutputToFile_def redirected_def Let_def writeFileSync_def
      createWriteStream_def)

lemma redirect_restores:
  "stdout_write (snd (redirectOutputToFile inspect path callback w)) = stdout_write w"
proof (cases "expandHomeDir w path \<in> directories w")
  case True
  then show ?thesis by (simp add: redirect_directory)
next
  case False
  obtain r w' where cb: "callback (redirected (expandHomeDir w path) w) = (r, w')"
    by (cases "callback (redirected (expandHomeDir w path) w)")
  show ?thesis
  proof (cases r)
    case (Inl e)
    with cb False show ?thesis by (simp add: redirect_callback_throws)
  next
    case (Inr v)
    show ?thesis
    proof (cases "realpathSync (expandHomeDir w path) (w'\<lparr>stdout_write := stdout_write w\<rparr>)")
      case (Inl e)
      with cb Inr False show ?thesis by (simp add: redirect_realpath_throws)
    next
      case resolves: (Inr abs_path)
      from redirect_returns [where callback = callback and inspect = inspect,
          OF False cb [unfolded Inr] resolves]
      show ?thesis by auto
    qed
  qed
qed


text \<open>
  C3 (amended). For every path and callback, \<^verbatim>\<open>redirectOutputToFile\<close> leaves
  \<^verbatim>\<open>process.stdout.write\<close> at its value from before the call on every exit path. When
  the path is a directory the call throws before anything is redirected. When the
  callback throws, the output is restored and the same error reaches the caller. When
  the callback returns and the path still resolves, the output is restored, the line
  \<^verbatim>\<open>Output saved to:\<close> with the absolute path is printed through the restored output,
  and the callback's value is returned. When the callback returns and the path does not
  resolve any more, the output is restored and the error of the resolution reaches the
  caller in place of the callback's value.
\<close>

theorem redirectOutputToFile_restores:
  "stdout_write (snd (redirectOutputToFile inspect path callback w)) = stdout_write w
   \<and> (expandHomeDir w path \<in> directories w \<longrightarrow>
        redirectOutputToFile inspect path callback w = (Inl EISDIR, w))
   \<and> (\<forall>e w'. expandHomeDir w path \<notin> directories w
        \<and> callback (redirected (expandHomeDir w path) w) = (Inl e, w') \<longrightarrow>
        redirectOutputToFile inspect path callback w
          = (Inl e, w'\<lparr>stdout_write := stdout_write w\<rparr>))
   \<and> (\<forall>v w' abs_path. expandHomeDir w path \<notin> directories w
        \<and> callback (redirected (expandHomeDir w path) w) = (Inr v, w')
        \<and> realpathSync (expandHomeDir w path) (w'\<lparr>stdout_write := stdout_write w\<rparr>)
            = Inr abs_path \<longrightarrow>
        (\<exists>lines. prettyPrint inspect [Str ''Output saved to:'', Str abs_path] = Inr lines
           \<and> redirectOutputToFile inspect path callback w
               = (Inr v, foldl (\<lambda>w' line. console_log line w')
                           (w'\<lparr>stdout_write := stdout_write w\<rparr>) lines)))
   \<and> (\<forall>v w' e. expandHomeDir w path \<notin> directories w
        \<and> callback (redirected (expandHomeDir w path) w) = (Inr v, w')
        \<and> realpathSync (expandHomeDir w path) (w'\<lparr>stdout_write := stdout_write w\<rparr>)
            = Inl e \<longrightarrow>
        redirectOutputToFile inspect path callback w
          = (Inl e, w'\<lparr>stdout_write := stdout_write w\<rparr>))"
proof -
  have c1: "stdout_write (snd (redirectOutputToFile inspect path callback w)) = stdout_write w"
    by (rule redirect_restores)
  have c2: "expandHomeDir w path \<in> directories w \<longrightarrow>
        redirectOutputToFile inspect path callback w = (Inl EISDIR, w)"
    by (simp add: redirect_directory)
  have c3: "\<forall>e w'. expandHomeDir w path \<notin> directories w
        \<and> callback (redirected (expandHomeDir w path) w) = (Inl e, w') \<longrightarrow>
        redirectOutputToFile inspect path callback w
          = (Inl e, w'\<lparr>stdout_write := stdout_write w\<rparr>)"
    by (simp add: redirect_callback_throws)
  have c4: "\<forall>v w' abs_path. expandHomeDir w path \<notin> directories w
        \<and> callback (redirected (expandHomeDir w path) w) = (Inr v, w')
        \<and> realpathSync (expandHomeDir w path) (w'\<lparr>stdout_write := stdout_write w\<rparr>)
            = Inr abs_path \<longrightarrow>
        (\<exists>lines. prettyPrint inspect [Str ''Output saved to:'', Str abs_path] = Inr lines
           \<and> redirectOutputToFile inspect path callback w
               = (Inr v, foldl (\<lambda>w' line. console_log line w')
                           (w'\<lparr>stdout_write := stdout_write w\<rparr>) lines))"
    using redirect_returns [where callback = callback and inspect = inspect and w = w
        and path = path]
    by blast
  have c5: "\<forall>v w' e. expandHomeDir w path \<notin> directories w
        \<and> callback (redirected (expandHomeDir w path) w) = (Inr v, w')
        \<and> realpathSync (expandHomeDir w path) (w'\<lparr>stdout_write := stdout_write w\<rparr>)
            = Inl e \<longrightarrow>
        redirectOutputToFile inspect path callback w
          = (Inl e, w'\<lparr>stdout_write := stdout_write w\<rparr>)"
    using redirect_realpath_throws [where callback = callback and inspect = inspect and w = w
        and path = path]
    by blast
  from c1 c2 c3 c4 c5 show ?thesis by (intro conjI)
qed

theorem redirectOutputToFile_restores_witness:
  "fst (redirectOutputToFile inspect_braces ''out.txt'' prints_then_throws console_world)
     = Inl (Thrown ''failed'')
   \<and> stdout_write (snd (redirectOutputToFile inspect_braces ''out.txt'' prints_then_throws
         console_world)) = ToConsole
   \<and> files (snd (redirectOutputToFile inspect_braces ''out.txt'' prints_then_throws
         console_world)) ''out.txt'' = Some [''one'', ''two'']
   \<and> console (snd (redirectOutputToFile inspect_braces ''out.txt'' prints_then_throws
         console_world)) = []
   \<and> redirectOutputToFile inspect_braces ''/tmp'' prints_then_throws console_world
       = (Inl EISDIR, console_world)
   \<and> fst (redirectOutputToFile inspect_braces ''out.txt'' prints_then_returns console_world)
       = Inr 7
   \<and> fst (redirectOutputToFile inspect_braces ''out.txt'' removes_file_then_returns
            console_world) = Inl ENOENT"
proof -
  note restores = redirectOutputToFile_restores [where inspect = inspect_braces
      and callback = prints_then_throws and w = console_world]
  have h3: "expandHomeDir console_world ''out.txt'' \<notin> directories console_world
      \<and> prints_then_throws (redirected (expandHomeDir console_world ''out.txt'') console_world)
          = (Inl (Thrown ''failed''),
             snd (prints_then_throws
                   (redirected (expandHomeDir console_world ''out.txt'') console_world)))"
    by (simp add: console_world_def prints_then_throws_def)
  have r: "redirectOutputToFile inspect_braces ''out.txt'' prints_then_throws console_world
      = (Inl (Thrown ''failed''),
         (snd (prints_then_throws
                (redirected (expandHomeDir console_world ''out.txt'') console_world)))
           \<lparr>stdout_write := stdout_write console_world\<rparr>)"
    using restores [where path = "''out.txt''", THEN conjunct2, THEN conjunct2, THEN conjunct1,
        rule_format, OF h3] .
  have w1: "fst (redirectOutputToFile inspect_braces ''out.txt'' prints_then_throws
              console_world) = Inl (Thrown ''failed'')"
    unfolding r by simp
  have w2: "stdout_write (snd (redirectOutputToFile inspect_braces ''out.txt''
              prints_then_throws console_world)) = ToConsole"
    using restores [where path = "''out.txt''", THEN conjunct1] by (simp add: console_world_def)
  have w3: "files (snd (redirectOutputToFile inspect_braces ''out.txt'' prints_then_throws
         console_world)) ''out.txt'' = Some [''one'', ''two'']"
    unfolding r
    by (simp add: console_world_def prints_then_throws_def redirected_def console_log_def
        createWriteStream_def writeFileSync_def)
  have w4: "console (snd (redirectOutputToFile inspect_braces ''out.txt'' prints_then_throws
         console_world)) = []"
    unfolding r
    by (simp add: console_world_def prints_then_throws_def redirected_def console_log_def
        createWriteStream_def writeFileSync_def)
  have h2: "expandHomeDir console_world ''/tmp'' \<in> directories console_world"
    by (simp add: console_world_def)
  have w5: "redirectOutputToFile inspect_braces ''/tmp'' prints_then_throws console_world
       = (Inl EISDIR, console_world)"
    using restores [where path = "''/tmp''", THEN conjunct2, THEN conjunct1, rule_format, OF h2] .
  have h4: "expandHomeDir console_world ''out.txt'' \<notin> directories console_world
      \<and> prints_then_returns (redirected (expandHomeDir console_world ''out.txt'') console_world)
          = (Inr 7, snd (prints_then_returns
                          (redirected (expandHomeDir console_world ''out.txt'') console_world)))
      \<and> realpathSync (expandHomeDir console_world ''out.txt'')
            ((snd (prints_then_returns
                    (redirected (expandHomeDir console_world ''out.txt'') console_world)))
               \<lparr>stdout_write := stdout_write console_world\<rparr>)
          = Inr ''/cwd/out.txt''"
    by (simp add: console_world_def prints_then_returns_def redirected_def console_log_def
        createWriteStream_def writeFileSync_def realpathSync_def)
  have w6: "fst (redirectOutputToFile inspect_braces ''out.txt'' prints_then_returns
              console_world) = Inr 7"
    using redirectOutputToFile_restores [where inspect = inspect_braces
        and callback = prints_then_returns and w = console_world and path = "''out.txt''",
        THEN conjunct2, THEN conjunct2, THEN conjunct2, THEN conjunct1, rule_format, OF h4]
    by auto
  have h5: "expandHomeDir console_world ''out.txt'' \<notin> directories console_world
      \<and> removes_file_then_returns
            (redirected (expandHomeDir console_world ''out.txt'') console_world)
          = (Inr 7, snd (removes_file_then_returns
                          (redirected (expandHomeDir console_world ''out.txt'') console_world)))
      \<and> realpathSync (expandHomeDir console_world ''out.txt'')
            ((snd (removes_file_then_returns
                    (redirected (expandHomeDir console_world ''out.txt'') console_world)))
               \<lparr>stdout_write := stdout_write console_world\<rparr>)
          = Inl ENOENT"
    by (simp add: console_world_def removes_file_then_returns_def redirected_def
        createWriteStream_def writeFileSync_def realpathSync_def)
  have w7: "fst (redirectOutputToFile inspect_braces ''out.txt'' removes_file_then_returns
              console_world) = Inl ENOENT"
    using redirectOutputToFile_restores [where inspect = inspect_braces
        and callback = removes_file_then_returns and w = console_world and path = "''out.txt''",
        THEN conjunct2, THEN conjunct2, THEN conjunct2, THEN conjunct2, rule_format, OF h5]
    by simp
  from w1 w2 w3 w4 w5 w6 w7 show ?thesis by (intro conjI)
qed

text \<open>
  C3 as stated fails for a callback that removes the output file before it returns: the
  callback returns \<open>7\<close> normally, the call throws \<^verbatim>\<open>ENOENT\<close> from
  \<^verbatim>\<open>fs.realpathSync\<close>, and no path is reported.
\<close>

theorem redirectOutputToFile_removed_file_counterexample:
  "fst (removes_file_then_returns (redirected ''out.txt'' console_world)) = Inr 7
   \<and> fst (redirectOutputToFile inspect_braces ''out.txt'' removes_file_then_returns
            console_world) = Inl ENOENT
   \<and> console (snd (redirectOutputToFile inspect_braces ''out.txt'' removes_file_then_returns
            console_world)) = []"
  by (simp add: redirectOutputToFile_def removes_file_then_returns_def console_world_def
      redirected_def writeFileSync_def createWriteStream_def realpathSync_def Let_def)


section \<open>Properties of cleanNumber\<close>

lemma bit_length_bounds:
  "0 < n \<Longrightarrow> 2 ^ (bit_length n - 1) \<le> n \<and> n < 2 ^ bit_length n"
proof (induction n rule: bit_length.induct)
  case (1 n)
  show ?case
  proof (cases "n div 2 = 0")
    case True
    with 1 have "n = 1" by (simp add: div_eq_0_iff) 
    then show ?thesis
      by (simp add: bit_length.simps [of "Suc 0"] bit_length.simps [of 0])
  next
    case False
    then have pos: "0 < n div 2" by simp
    from 1 have ih: "2 ^ (bit_length (n div 2) - 1) \<le> n div 2 \<and> n div 2 < 2 ^ bit_length (n div 2)"
      using pos by simp
    have bl: "bit_length n = Suc (bit_length (n div 2))"
      using 1(2) by (simp add: bit_length.simps [of n])
    have blpos: "0 < bit_length (n div 2)"
      using pos by (simp add: bit_length.simps [of "n div 2"])
    have lo: "2 ^ (bit_length n - 1) \<le> n"
    proof -
      have "(2::nat) ^ (bit_length n - 1) = 2 * 2 ^ (bit_length (n div 2) - 1)"
        using bl blpos by (cases "bit_length (n div 2)") simp_all
      also have "\<dots> \<le> 2 * (n div 2)"
        using ih by simp
      also have "\<dots> \<le> n" by simp
      finally show ?thesis .
    qed
    have hi: "n < 2 ^ bit_length n"
    proof -
      have "n < 2 * (n div 2) + 2" by presburger
      also have "\<dots> \<le> 2 * 2 ^ bit_length (n div 2)"
        using ih by simp
      finally show ?thesis using bl by simp
    qed
    from lo hi show ?thesis ..
  qed
qed


lemma floor_log2_bounds:
  assumes "0 < a"
  shows "2 powi (floor_log2 a) \<le> a \<and> a < 2 powi (floor_log2 a + 1)"
proof -
  obtain p d where pd: "quotient_of a = (p, d)"
    by (cases "quotient_of a")
  then have d: "0 < d" and a: "a = of_int p / of_int d"
    by (simp_all add: quotient_of_denom_pos quotient_of_div)
  from assms a d have p: "0 < p"
    by (simp add: zero_less_divide_iff)
  define bp where "bp = bit_length (nat p)"
  define bd where "bd = bit_length (nat d)"
  define k where "k = int bp - int bd"
  from bit_length_bounds [of "nat p"] p
  have "2 ^ (bp - 1) \<le> nat p" and "nat p < 2 ^ bp"
    by (simp_all add: bp_def)
  then have "int (2 ^ (bp - 1)) \<le> p" and "p < int (2 ^ bp)"
    using p by linarith+
  then have P: "(2::rat) ^ (bp - 1) \<le> of_int p" "(of_int p :: rat) < 2 ^ bp"
    by (metis of_int_le_iff of_int_of_nat_eq of_nat_numeral of_nat_power,
        metis of_int_less_iff of_int_of_nat_eq of_nat_numeral of_nat_power)
  from bit_length_bounds [of "nat d"] d
  have "2 ^ (bd - 1) \<le> nat d" and "nat d < 2 ^ bd"
    by (simp_all add: bd_def)
  then have "int (2 ^ (bd - 1)) \<le> d" and "d < int (2 ^ bd)"
    using d by linarith+
  then have D: "(2::rat) ^ (bd - 1) \<le> of_int d" "(of_int d :: rat) < 2 ^ bd"
    by (metis of_int_le_iff of_int_of_nat_eq of_nat_numeral of_nat_power,
        metis of_int_less_iff of_int_of_nat_eq of_nat_numeral of_nat_power)
  have bp1: "1 \<le> bp"
    using p by (simp add: bp_def bit_length.simps [of "nat p"])
  have bd1: "1 \<le> bd"
    using d by (simp add: bd_def bit_length.simps [of "nat d"])
  have dpos: "(0::rat) < of_int d" and ppos: "(0::rat) < of_int p"
    using d p by simp_all
  have upper: "a < 2 powi (k + 1)"
  proof -
    have "of_int p * 2 ^ (bd - 1) < (2::rat) ^ bp * of_int d"
      using P(2) D(1) dpos ppos
      by (meson mult_less_le_imp_less less_eq_rat_def zero_less_numeral zero_less_power
          order_less_imp_le)
    then have "a < 2 ^ bp / 2 ^ (bd - 1)"
      using dpos by (simp add: a field_simps)
    also have "\<dots> = 2 powi (int bp - int (bd - 1))"
      by (simp add: power_int_diff)
    also have "int bp - int (bd - 1) = k + 1"
      using bd1 by (simp add: k_def)
    finally show ?thesis .
  qed
  have lower: "2 powi (k - 1) < a"
  proof -
    have "(2::rat) ^ (bp - 1) * of_int d < of_int p * 2 ^ bd"
      using P(1) D(2) dpos ppos
      by (meson mult_le_less_imp_less less_eq_rat_def zero_less_numeral zero_less_power
          order_less_imp_le)
    then have "2 ^ (bp - 1) / 2 ^ bd < a"
      using dpos by (simp add: a field_simps)
    moreover have "(2::rat) ^ (bp - 1) / 2 ^ bd = 2 powi (int (bp - 1) - int bd)"
      by (simp add: power_int_diff)
    moreover have "int (bp - 1) - int bd = k - 1"
      using bp1 by (simp add: k_def)
    ultimately show ?thesis by simp
  qed
  have fl: "floor_log2 a = (if 2 powi k \<le> a then k else k - 1)"
    by (simp add: floor_log2_def pd k_def bp_def bd_def Let_def)
  show ?thesis
  proof (cases "2 powi k \<le> a")
    case True
    with fl upper show ?thesis by simp
  next
    case False
    with fl lower show ?thesis by simp
  qed
qed

lemma powi_less_exp:
  assumes "(2::rat) powi m < 2 powi n"
  shows "m < n"
proof (rule ccontr)
  assume "\<not> m < n"
  then have "n \<le> m" by simp
  then have "(2::rat) powi n \<le> 2 powi m"
    by (intro power_int_increasing) simp_all
  with assms show False by simp
qed

lemma floor_log2_unique:
  assumes "0 < a" and "2 powi e \<le> a" and "a < 2 powi (e + 1)"
  shows "floor_log2 a = e"
proof -
  from floor_log2_bounds [OF assms(1)]
  have lo: "2 powi (floor_log2 a) \<le> a" and hi: "a < 2 powi (floor_log2 a + 1)"
    by simp_all
  have "(2::rat) powi e < 2 powi (floor_log2 a + 1)"
    using assms(2) hi by simp
  then have "e < floor_log2 a + 1"
    by (rule powi_less_exp)
  moreover have "(2::rat) powi (floor_log2 a) < 2 powi (e + 1)"
    using lo assms(3) by simp
  then have "floor_log2 a < e + 1"
    by (rule powi_less_exp)
  ultimately show ?thesis by simp
qed

lemma to_double_at:
  assumes "2 powi e \<le> \<bar>q\<bar>" and "\<bar>q\<bar> < 2 powi (e + 1)"
  shows "to_double q =
           sgn q * of_int (round_half_even (\<bar>q\<bar> / 2 powi (max (e - 52) (- 1074))))
             * 2 powi (max (e - 52) (- 1074))"
proof -
  have "(0::rat) < 2 powi e" by simp
  with assms(1) have pos: "0 < \<bar>q\<bar>" by linarith
  then have "q \<noteq> 0" by simp
  moreover have "floor_log2 \<bar>q\<bar> = e"
    using pos assms by (rule floor_log2_unique)
  ultimately show ?thesis
    by (simp add: to_double_def Let_def)
qed


text \<open>The rounding picks a nearest double: no multiple of the spacing is nearer.\<close>

lemma round_half_even_nearest:
  "\<bar>of_int (round_half_even x) - x\<bar> \<le> \<bar>of_int m - x\<bar>"
proof -
  define f where "f = \<lfloor>x\<rfloor>"
  have lo: "of_int f \<le> x" and hi: "x < of_int f + 1"
    unfolding f_def by linarith+
  consider (below) "m \<le> f" | (above) "f + 1 \<le> m"
    by linarith
  then have m: "(of_int m :: rat) \<le> of_int f \<or> (of_int f :: rat) + 1 \<le> of_int m"
  proof cases
    case below
    then show ?thesis by simp
  next
    case above
    then have "(of_int f :: rat) + 1 \<le> of_int m"
      by (metis of_int_1 of_int_add of_int_le_iff)
    then show ?thesis ..
  qed
  have rdef: "round_half_even x =
      (if x - of_int f < 1 / 2 then f
       else if 1 / 2 < x - of_int f then f + 1 else if even f then f else f + 1)"
    by (simp add: round_half_even_def Let_def f_def)
  consider (down) "round_half_even x = f" "x - of_int f \<le> 1 / 2"
    | (up) "round_half_even x = f + 1" "1 / 2 \<le> x - of_int f"
  proof (cases "x - of_int f < 1 / 2")
    case True
    then have "round_half_even x = f" by (simp add: rdef)
    with True show ?thesis by (intro down) simp_all
  next
    case False
    show ?thesis
    proof (cases "1 / 2 < x - of_int f")
      case True
      then have "round_half_even x = f + 1" using False by (simp add: rdef)
      with True show ?thesis by (intro up) simp_all
    next
      case eq: False
      show ?thesis
      proof (cases "even f")
        case True
        then have "round_half_even x = f" using False eq by (simp add: rdef)
        with eq show ?thesis by (intro down) simp_all
      next
        case odd: False
        then have "round_half_even x = f + 1" using False eq by (simp add: rdef)
        with False show ?thesis by (intro up) simp_all
      qed
    qed
  qed
  then show ?thesis
  proof cases
    case down
    from m show ?thesis
    proof
      assume "(of_int m :: rat) \<le> of_int f"
      with down lo hi show ?thesis unfolding down(1) by linarith
    next
      assume "(of_int f :: rat) + 1 \<le> of_int m"
      with down lo hi show ?thesis unfolding down(1) by linarith
    qed
  next
    case up
    have fp: "(of_int (f + 1) :: rat) = of_int f + 1" by simp
    from m show ?thesis
    proof
      assume "(of_int m :: rat) \<le> of_int f"
      with up lo hi show ?thesis unfolding up(1) fp by linarith
    next
      assume "(of_int f :: rat) + 1 \<le> of_int m"
      with up lo hi show ?thesis unfolding up(1) fp by linarith
    qed
  qed
qed

lemma to_double_nearest:
  assumes "q \<noteq> 0"
  shows "\<bar>to_double q - q\<bar>
           \<le> \<bar>of_int m * 2 powi (max (floor_log2 \<bar>q\<bar> - 52) (- 1074)) - q\<bar>"
proof -
  define u :: rat where "u = 2 powi (max (floor_log2 \<bar>q\<bar> - 52) (- 1074))"
  have u: "0 < u" by (simp add: u_def)
  define k where "k = round_half_even (\<bar>q\<bar> / u)"
  have td: "to_double q = sgn q * of_int k * u"
    using assms by (simp add: to_double_def Let_def u_def k_def)
  have scale: "\<bar>of_int j * u - \<bar>q\<bar>\<bar> = \<bar>of_int j - \<bar>q\<bar> / u\<bar> * u" for j :: int
  proof -
    have "of_int j * u - \<bar>q\<bar> = (of_int j - \<bar>q\<bar> / u) * u"
      using u by (simp add: field_simps)
    then show ?thesis using u by (simp add: abs_mult)
  qed
  have near: "\<bar>of_int k * u - \<bar>q\<bar>\<bar> \<le> \<bar>of_int j * u - \<bar>q\<bar>\<bar>" for j :: int
    unfolding scale k_def using u round_half_even_nearest [of "\<bar>q\<bar> / u" j]
    by (simp add: mult_right_mono)
  show ?thesis
  proof (cases "0 < q")
    case True
    then have "\<bar>to_double q - q\<bar> = \<bar>of_int k * u - \<bar>q\<bar>\<bar>"
      by (simp add: td)
    also have "\<dots> \<le> \<bar>of_int m * u - \<bar>q\<bar>\<bar>"
      by (rule near)
    also have "\<dots> = \<bar>of_int m * u - q\<bar>"
      using True by simp
    finally show ?thesis unfolding u_def .
  next
    case False
    with assms have neg: "q < 0" by simp
    then have "to_double q - q = - (of_int k * u - \<bar>q\<bar>)"
      by (simp add: td sgn_if)
    then have "\<bar>to_double q - q\<bar> = \<bar>of_int k * u - \<bar>q\<bar>\<bar>"
      by (simp only: abs_minus_cancel)
    also have "\<dots> \<le> \<bar>of_int (- m) * u - \<bar>q\<bar>\<bar>"
      by (rule near)
    also have "of_int (- m) * u - \<bar>q\<bar> = - (of_int m * u - q)"
      using neg by simp
    also have "\<bar>- (of_int m * u - q)\<bar> = \<bar>of_int m * u - q\<bar>"
      by (simp only: abs_minus_cancel)
    finally show ?thesis unfolding u_def .
  qed
qed

lemma floor_rat_numeral:
  "\<lfloor>numeral a / numeral b :: rat\<rfloor> = numeral a div numeral b"
  using floor_divide_of_int_eq [of "numeral a" "numeral b", where ?'a = rat] by simp

lemma double_tenth: "to_double (1 / 10) = 3602879701896397 / 36028797018963968"
  using to_double_at [of "- 4" "1 / 10"]
  by (simp add: round_half_even_def Let_def floor_rat_numeral)

lemma double_fifth: "to_double (2 / 10) = 3602879701896397 / 18014398509481984"
  using to_double_at [of "- 3" "2 / 10"]
  by (simp add: round_half_even_def Let_def floor_rat_numeral)

lemma double_fiftieth: "to_double (2 / 100) = 5764607523034235 / 288230376151711744"
  using to_double_at [of "- 6" "2 / 100"]
  by (simp add: round_half_even_def Let_def floor_rat_numeral)

lemma multiply_tenth_fifth: "multiply (to_double (1 / 10)) (to_double (2 / 10))
    = 1441151880758559 / 72057594037927936"
proof -
  have "multiply (to_double (1 / 10)) (to_double (2 / 10))
          = to_double (3602879701896397 / 36028797018963968
                       * (3602879701896397 / 18014398509481984))"
    by (simp only: multiply_def double_tenth double_fifth)
  also have "\<dots> = 1441151880758559 / 72057594037927936"
    using to_double_at [of "- 6" "3602879701896397 / 36028797018963968
                       * (3602879701896397 / 18014398509481984)"]
    by (simp add: round_half_even_def Let_def floor_rat_numeral)
  finally show ?thesis .
qed

lemma toFixed_product: "toFixed 13 (1441151880758559 / 72057594037927936) = 2 / 100"
  by (simp add: toFixed_def floor_rat_numeral)

lemma half_up_nearest:
  fixes y :: rat
  shows "\<bar>of_int \<lfloor>y + 1 / 2\<rfloor> - y\<bar> \<le> \<bar>of_int m - y\<bar>"
proof -
  define n where "n = \<lfloor>y + 1 / 2\<rfloor>"
  have lo: "of_int n \<le> y + 1 / 2" and hi: "y + 1 / 2 < of_int n + 1"
    unfolding n_def by linarith+
  consider (below) "m \<le> n - 1" | (same) "m = n" | (above) "n + 1 \<le> m"
    by linarith
  then have "\<bar>of_int n - y\<bar> \<le> \<bar>of_int m - y\<bar>"
  proof cases
    case below
    then have "(of_int m :: rat) \<le> of_int n - 1"
      by (metis of_int_1 of_int_diff of_int_le_iff)
    with lo hi show ?thesis by linarith
  next
    case same
    then show ?thesis by simp
  next
    case above
    then have "(of_int n :: rat) + 1 \<le> of_int m"
      by (metis of_int_1 of_int_add of_int_le_iff)
    with lo hi show ?thesis by linarith
  qed
  then show ?thesis by (simp add: n_def)
qed

lemma toFixed_nearest:
  assumes small: "\<bar>x\<bar> < 10 ^ 21"
  shows "\<bar>toFixed f x - x\<bar> \<le> \<bar>of_int m / 10 ^ f - x\<bar>"
proof -
  have scale: "\<bar>of_int k / 10 ^ f - z\<bar> = \<bar>of_int k - z * 10 ^ f\<bar> / 10 ^ f" for k :: int and z :: rat
  proof -
    have "of_int k / 10 ^ f - z = (of_int k - z * 10 ^ f) / 10 ^ f"
      by (simp add: field_simps)
    then show ?thesis by (simp add: abs_divide)
  qed
  show ?thesis
  proof (cases "x < 0")
    case False
    then have "toFixed f x = of_int \<lfloor>x * 10 ^ f + 1 / 2\<rfloor> / 10 ^ f"
      using small by (simp add: toFixed_def)
    then have "\<bar>toFixed f x - x\<bar> = \<bar>of_int \<lfloor>x * 10 ^ f + 1 / 2\<rfloor> - x * 10 ^ f\<bar> / 10 ^ f"
      by (simp only: scale)
    also have "\<dots> \<le> \<bar>of_int m - x * 10 ^ f\<bar> / 10 ^ f"
      by (intro divide_right_mono half_up_nearest) simp
    also have "\<dots> = \<bar>of_int m / 10 ^ f - x\<bar>"
      by (simp only: scale)
    finally show ?thesis .
  next
    case True
    then have "toFixed f x = - (of_int \<lfloor>- x * 10 ^ f + 1 / 2\<rfloor> / 10 ^ f)"
      using small by (simp add: toFixed_def)
    then have "\<bar>toFixed f x - x\<bar> = \<bar>of_int \<lfloor>- x * 10 ^ f + 1 / 2\<rfloor> / 10 ^ f - (- x)\<bar>"
      by (simp add: abs_minus_commute)
    also have "\<dots> = \<bar>of_int \<lfloor>- x * 10 ^ f + 1 / 2\<rfloor> - (- x) * 10 ^ f\<bar> / 10 ^ f"
      by (simp only: scale)
    also have "\<dots> \<le> \<bar>of_int (- m) - (- x) * 10 ^ f\<bar> / 10 ^ f"
      using half_up_nearest [of "- x * 10 ^ f" "- m"]
      by (intro divide_right_mono) simp_all
    also have "\<dots> = \<bar>of_int (- m) / 10 ^ f - (- x)\<bar>"
      by (simp only: scale)
    also have "\<dots> = \<bar>of_int m / 10 ^ f - x\<bar>"
      by (simp add: abs_minus_commute)
    finally show ?thesis .
  qed
qed

lemma toFixed_digits:
  assumes small: "\<bar>x\<bar> < 10 ^ 21"
  shows "\<exists>n::int. toFixed f x = of_int n / 10 ^ f"
proof (cases "x < 0")
  case True
  then have "toFixed f x = of_int (- \<lfloor>- x * 10 ^ f + 1 / 2\<rfloor>) / 10 ^ f"
    using small by (simp add: toFixed_def)
  then show ?thesis ..
next
  case False
  then have "toFixed f x = of_int \<lfloor>x * 10 ^ f + 1 / 2\<rfloor> / 10 ^ f"
    using small by (simp add: toFixed_def)
  then show ?thesis ..
qed

lemma large_double_integer:
  assumes double: "to_double x = x" and large: "10 ^ 21 \<le> \<bar>x\<bar>"
  shows "\<exists>k::int. x = of_int k"
proof -
  have pos: "0 < \<bar>x\<bar>"
    using large by (meson less_le_trans zero_less_numeral zero_less_power)
  then have nz: "x \<noteq> 0" by simp
  define e where "e = floor_log2 \<bar>x\<bar>"
  from floor_log2_bounds [OF pos] have hi: "\<bar>x\<bar> < 2 powi (e + 1)"
    by (simp add: e_def)
  have "(2::rat) powi 69 \<le> 10 ^ 21"
    by simp
  with large hi have "(2::rat) powi 69 < 2 powi (e + 1)"
    by linarith
  then have "69 < e + 1"
    by (rule powi_less_exp)
  then have e: "69 \<le> e" by simp
  then have mx: "max (e - 52) (- 1074) = int (nat (e - 52))"
    by simp
  define m where "m = round_half_even (\<bar>x\<bar> / 2 powi (max (e - 52) (- 1074)))"
  have "x = sgn x * of_int m * 2 powi (max (e - 52) (- 1074))"
    using double nz by (simp add: to_double_def Let_def e_def m_def)
  also have "2 powi (max (e - 52) (- 1074)) = (2::rat) ^ nat (e - 52)"
    unfolding mx by (rule power_int_of_nat)
  finally have x: "x = sgn x * of_int m * 2 ^ nat (e - 52)" .
  have "sgn x = 1 \<or> sgn x = - 1"
    using nz by (simp add: sgn_if)
  then show ?thesis
  proof
    assume "sgn x = 1"
    with x have "x = of_int (m * 2 ^ nat (e - 52))" by simp
    then show ?thesis ..
  next
    assume "sgn x = - 1"
    with x have "x = of_int (- m * 2 ^ nat (e - 52))" by simp
    then show ?thesis ..
  qed
qed

text \<open>
  C9. For every double \<open>x\<close>, \<^verbatim>\<open>cleanNumber(x)\<close> is the double nearest to a number with
  13 fractional digits, and no number with 13 fractional digits is nearer to \<open>x\<close> than
  that one: the value is rounded to 13 fractional digits. In particular the product
  \<^verbatim>\<open>0.1 * 0.2\<close>, which is not the double \<^verbatim>\<open>0.02\<close>, is cleaned to exactly the double
  \<^verbatim>\<open>0.02\<close>. The literals \<^verbatim>\<open>0.1\<close>, \<^verbatim>\<open>0.2\<close> and \<^verbatim>\<open>0.02\<close> are the doubles
  nearest to \<open>1 / 10\<close>, \<open>2 / 10\<close> and \<open>2 / 100\<close>.
\<close>

theorem cleanNumber_rounds:
  "(to_double x = x \<longrightarrow>
      (\<exists>n::int. cleanNumber x = to_double (of_int n / 10 ^ 13)
         \<and> (\<forall>m::int. \<bar>of_int n / 10 ^ 13 - x\<bar> \<le> \<bar>of_int m / 10 ^ 13 - x\<bar>)))
   \<and> cleanNumber (multiply (to_double (1 / 10)) (to_double (2 / 10))) = to_double (2 / 100)
   \<and> multiply (to_double (1 / 10)) (to_double (2 / 10)) \<noteq> to_double (2 / 100)"
proof -
  have c1: "to_double x = x \<longrightarrow>
      (\<exists>n::int. cleanNumber x = to_double (of_int n / 10 ^ 13)
         \<and> (\<forall>m::int. \<bar>of_int n / 10 ^ 13 - x\<bar> \<le> \<bar>of_int m / 10 ^ 13 - x\<bar>))"
  proof
    assume double: "to_double x = x"
    show "\<exists>n::int. cleanNumber x = to_double (of_int n / 10 ^ 13)
         \<and> (\<forall>m::int. \<bar>of_int n / 10 ^ 13 - x\<bar> \<le> \<bar>of_int m / 10 ^ 13 - x\<bar>)"
    proof (cases "\<bar>x\<bar> < 10 ^ 21")
      case True
      from toFixed_digits [OF True, of 13]
      obtain n :: int where n: "toFixed 13 x = of_int n / 10 ^ 13"
        by blast
      have "cleanNumber x = to_double (of_int n / 10 ^ 13)"
        by (simp only: cleanNumber_def Number_def n)
      moreover have "\<forall>m::int. \<bar>of_int n / 10 ^ 13 - x\<bar> \<le> \<bar>of_int m / 10 ^ 13 - x\<bar>"
        using toFixed_nearest [OF True, of 13] by (simp only: n) simp
      ultimately show ?thesis by blast
    next
      case False
      then have large: "10 ^ 21 \<le> \<bar>x\<bar>" by simp
      from large_double_integer [OF double large]
      obtain k :: int where k: "x = of_int k"
        by blast
      have n: "of_int (k * 10 ^ 13) / 10 ^ 13 = x"
        by (simp add: k)
      have "toFixed 13 x = x"
        using large by (simp add: toFixed_def)
      then have "cleanNumber x = to_double (of_int (k * 10 ^ 13) / 10 ^ 13)"
        by (simp only: cleanNumber_def Number_def n)
      moreover have "\<forall>m::int. \<bar>of_int (k * 10 ^ 13) / 10 ^ 13 - x\<bar>
                        \<le> \<bar>of_int m / 10 ^ 13 - x\<bar>"
        by (simp only: n) simp
      ultimately show ?thesis by blast
    qed
  qed
  have c2: "cleanNumber (multiply (to_double (1 / 10)) (to_double (2 / 10)))
              = to_double (2 / 100)"
  proof -
    have "cleanNumber (1441151880758559 / 72057594037927936)
            = to_double (toFixed 13 (1441151880758559 / 72057594037927936))"
      by (simp only: cleanNumber_def Number_def)
    then show ?thesis
      by (simp only: multiply_tenth_fifth toFixed_product)
  qed
  have c3: "multiply (to_double (1 / 10)) (to_double (2 / 10)) \<noteq> to_double (2 / 100)"
    unfolding multiply_tenth_fifth double_fiftieth by simp
  from c1 c2 c3 show ?thesis by (intro conjI)
qed

theorem cleanNumber_rounds_witness:
  "(\<exists>n::int. cleanNumber (1441151880758559 / 72057594037927936)
                 = to_double (of_int n / 10 ^ 13)
      \<and> (\<forall>m::int. \<bar>of_int n / 10 ^ 13 - (1441151880758559 / 72057594037927936 :: rat)\<bar>
                    \<le> \<bar>of_int m / 10 ^ 13 - 1441151880758559 / 72057594037927936\<bar>))
   \<and> cleanNumber (multiply (to_double (1 / 10)) (to_double (2 / 10)))
       = 5764607523034235 / 288230376151711744"
proof -
  have double: "to_double (1441151880758559 / 72057594037927936)
                  = 1441151880758559 / 72057594037927936"
    using to_double_at [of "- 6" "1441151880758559 / 72057594037927936"]
    by (simp add: round_half_even_def Let_def floor_rat_numeral)
  have w1: "\<exists>n::int. cleanNumber (1441151880758559 / 72057594037927936)
                 = to_double (of_int n / 10 ^ 13)
      \<and> (\<forall>m::int. \<bar>of_int n / 10 ^ 13 - (1441151880758559 / 72057594037927936 :: rat)\<bar>
                    \<le> \<bar>of_int m / 10 ^ 13 - 1441151880758559 / 72057594037927936\<bar>)"
    using cleanNumber_rounds [of "1441151880758559 / 72057594037927936", THEN conjunct1,
        rule_format, OF double] .
  have w2: "cleanNumber (multiply (to_double (1 / 10)) (to_double (2 / 10)))
       = 5764607523034235 / 288230376151711744"
    using cleanNumber_rounds [of 0, THEN conjunct2, THEN conjunct1]
    by (simp only: double_fiftieth)
  from w1 w2 show ?thesis by (intro conjI)
qed

section \<open>Properties of the timers\<close>

text \<open>The rounding to a double keeps the order, and keeps a whole number below \<open>2 ^ 53\<close>.\<close>

lemma round_half_even_half: "\<bar>of_int (round_half_even x) - x\<bar> \<le> 1 / 2"
proof -
  have lo: "of_int \<lfloor>x\<rfloor> \<le> x" and hi: "x < of_int \<lfloor>x\<rfloor> + 1"
    by linarith+
  have a: "\<bar>of_int (round_half_even x) - x\<bar> \<le> \<bar>of_int \<lfloor>x\<rfloor> - x\<bar>"
    by (rule round_half_even_nearest)
  have b: "\<bar>of_int (round_half_even x) - x\<bar> \<le> \<bar>of_int (\<lfloor>x\<rfloor> + 1) - x\<bar>"
    by (rule round_half_even_nearest)
  have "(of_int (\<lfloor>x\<rfloor> + 1) :: rat) = of_int \<lfloor>x\<rfloor> + 1"
    by simp
  with a b lo hi show ?thesis by linarith
qed

lemma round_half_even_mono:
  assumes "x \<le> y"
  shows "round_half_even x \<le> round_half_even y"
proof (rule ccontr)
  assume "\<not> round_half_even x \<le> round_half_even y"
  then have "round_half_even y + 1 \<le> round_half_even x"
    by simp
  then have gap: "(of_int (round_half_even y) :: rat) + 1 \<le> of_int (round_half_even x)"
    by (metis of_int_1 of_int_add of_int_le_iff)
  from round_half_even_half [of x] round_half_even_half [of y] gap assms
  have "x = y" by linarith
  with gap show False by simp
qed

lemma round_half_even_of_int: "round_half_even (of_int k) = k"
  by (simp add: round_half_even_def Let_def)

lemma floor_log2_mono:
  assumes "0 < x" and "x \<le> y"
  shows "floor_log2 x \<le> floor_log2 y"
proof -
  from assms have y: "0 < y" by simp
  have "2 powi (floor_log2 x) \<le> x"
    using floor_log2_bounds [OF assms(1)] by simp
  moreover have "y < 2 powi (floor_log2 y + 1)"
    using floor_log2_bounds [OF y] by simp
  ultimately have "(2::rat) powi (floor_log2 x) < 2 powi (floor_log2 y + 1)"
    using assms(2) by linarith
  then have "floor_log2 x < floor_log2 y + 1"
    by (rule powi_less_exp)
  then show ?thesis by simp
qed

lemma to_double_positive:
  assumes "0 < q"
  shows "to_double q =
           of_int (round_half_even (q / 2 powi (max (floor_log2 q - 52) (- 1074))))
             * 2 powi (max (floor_log2 q - 52) (- 1074))"
  using assms by (simp add: to_double_def Let_def)

lemma to_double_minus: "to_double (- q) = - to_double q"
  by (simp add: to_double_def Let_def sgn_minus)

lemma to_double_zero: "to_double 0 = 0"
  by (simp add: to_double_def)

lemma to_double_nonneg:
  assumes "0 \<le> q"
  shows "0 \<le> to_double q"
proof (cases "q = 0")
  case True
  then show ?thesis by (simp add: to_double_zero)
next
  case False
  with assms have q: "0 < q" by simp
  define u :: rat where "u = 2 powi (max (floor_log2 q - 52) (- 1074))"
  have u: "0 < u" by (simp add: u_def)
  have "0 \<le> q / u" using q u by simp
  then have "round_half_even 0 \<le> round_half_even (q / u)"
    by (rule round_half_even_mono)
  then have "0 \<le> round_half_even (q / u)"
    using round_half_even_of_int [of 0] by simp
  then have "0 \<le> (of_int (round_half_even (q / u)) :: rat) * u"
    using u by simp
  then show ?thesis
    unfolding to_double_positive [OF q] u_def .
qed

lemma to_double_positive_mono:
  assumes x: "0 < x" and xy: "x \<le> y"
  shows "to_double x \<le> to_double y"
proof -
  from x xy have y: "0 < y" by simp
  define ex where "ex = floor_log2 x"
  define ey where "ey = floor_log2 y"
  define px where "px = max (ex - 52) (- 1074)"
  define py where "py = max (ey - 52) (- 1074)"
  have tx: "to_double x = of_int (round_half_even (x / 2 powi px)) * 2 powi px"
    unfolding px_def ex_def by (rule to_double_positive [OF x])
  have ty: "to_double y = of_int (round_half_even (y / 2 powi py)) * 2 powi py"
    unfolding py_def ey_def by (rule to_double_positive [OF y])
  have exy: "ex \<le> ey"
    unfolding ex_def ey_def using x xy by (rule floor_log2_mono)
  have xhi: "x < 2 powi (ex + 1)"
    using floor_log2_bounds [OF x] by (simp add: ex_def)
  have ylo: "2 powi ey \<le> y"
    using floor_log2_bounds [OF y] by (simp add: ey_def)
  show ?thesis
  proof (cases "px = py")
    case True
    have "x / 2 powi py \<le> y / 2 powi py"
      using xy by (simp add: divide_right_mono)
    then have "round_half_even (x / 2 powi py) \<le> round_half_even (y / 2 powi py)"
      by (rule round_half_even_mono)
    then have "(of_int (round_half_even (x / 2 powi py)) :: rat)
                 \<le> of_int (round_half_even (y / 2 powi py))"
      by simp
    then have "(of_int (round_half_even (x / 2 powi py)) :: rat) * 2 powi py
                 \<le> of_int (round_half_even (y / 2 powi py)) * 2 powi py"
      by (rule mult_right_mono) simp
    then show ?thesis
      unfolding tx ty True .
  next
    case False
    with exy have lt: "px < py"
      unfolding px_def py_def by linarith
    then have pye: "py = ey - 52"
      unfolding px_def py_def by linarith
    have pxe: "ex - 52 \<le> px"
      by (simp add: px_def)
    have e1: "ex + 1 \<le> ey"
      using lt pye pxe by simp
    define k where "k = max (ex + 1) px"
    define n where "n = nat (k - px)"
    have kn: "k - px = int n"
      by (simp add: n_def k_def)
    have pw: "(of_int (2 ^ n) :: rat) = 2 powi (k - px)"
      unfolding kn by (simp only: power_int_of_nat) simp
    have "(2::rat) powi (ex + 1) \<le> 2 powi k"
      unfolding k_def by (intro power_int_increasing) simp_all
    with xhi have "x \<le> 2 powi k" by linarith
    then have "x / 2 powi px \<le> 2 powi k / 2 powi px"
      by (simp add: divide_right_mono)
    also have "(2::rat) powi k / 2 powi px = 2 powi (k - px)"
      by (simp add: power_int_diff)
    finally have "x / 2 powi px \<le> of_int (2 ^ n)"
      unfolding pw .
    then have "round_half_even (x / 2 powi px) \<le> round_half_even (of_int (2 ^ n))"
      by (rule round_half_even_mono)
    then have "round_half_even (x / 2 powi px) \<le> 2 ^ n"
      by (simp only: round_half_even_of_int)
    then have "(of_int (round_half_even (x / 2 powi px)) :: rat) \<le> of_int (2 ^ n)"
      by (simp only: of_int_le_iff)
    then have "(of_int (round_half_even (x / 2 powi px)) :: rat) * 2 powi px
                    \<le> of_int (2 ^ n) * 2 powi px"
      by (rule mult_right_mono) simp
    also have "(of_int (2 ^ n) :: rat) * 2 powi px = 2 powi k"
      unfolding pw by (simp add: power_int_diff)
    finally have upper: "to_double x \<le> 2 powi k"
      unfolding tx .
    define c :: int where "c = 2 ^ 52"
    have c: "(of_int c :: rat) = 2 powi 52"
      by (simp add: c_def)
    have "(of_int c :: rat) = 2 powi ey / 2 powi py"
      unfolding pye c by (simp add: power_int_diff [symmetric])
    also have "\<dots> \<le> y / 2 powi py"
      using ylo by (simp add: divide_right_mono)
    finally have "round_half_even (of_int c) \<le> round_half_even (y / 2 powi py)"
      by (rule round_half_even_mono)
    then have "c \<le> round_half_even (y / 2 powi py)"
      by (simp only: round_half_even_of_int)
    then have "(of_int c :: rat) \<le> of_int (round_half_even (y / 2 powi py))"
      by (simp only: of_int_le_iff)
    then have "(of_int c :: rat) * 2 powi py
                 \<le> of_int (round_half_even (y / 2 powi py)) * 2 powi py"
      by (rule mult_right_mono) simp
    moreover have "(of_int c :: rat) * 2 powi py = 2 powi ey"
    proof -
      have "(2::rat) powi (52 + (ey - 52)) = 2 powi 52 * 2 powi (ey - 52)"
        by (rule power_int_add) simp
      moreover have "52 + (ey - 52) = ey" by simp
      ultimately show ?thesis
        unfolding pye c by (simp only:)
    qed
    ultimately have lower: "2 powi ey \<le> to_double y"
      unfolding ty by (simp only:)
    have "k \<le> ey"
      unfolding k_def using e1 lt pye by linarith
    then have "(2::rat) powi k \<le> 2 powi ey"
      by (intro power_int_increasing) simp_all
    with upper lower show ?thesis by linarith
  qed
qed

lemma to_double_mono:
  assumes xy: "x \<le> y"
  shows "to_double x \<le> to_double y"
proof -
  consider (pos) "0 < x" | (mixed) "x \<le> 0" "0 \<le> y" | (neg) "y < 0"
    by linarith
  then show ?thesis
  proof cases
    case pos
    then show ?thesis using xy by (rule to_double_positive_mono)
  next
    case mixed
    have "0 \<le> to_double (- x)"
      using mixed(1) by (intro to_double_nonneg) simp
    then have "to_double x \<le> 0"
      by (simp add: to_double_minus)
    moreover have "0 \<le> to_double y"
      using mixed(2) by (rule to_double_nonneg)
    ultimately show ?thesis by linarith
  next
    case neg
    then have "0 < - y" by simp
    moreover have "- y \<le> - x" using xy by simp
    ultimately have "to_double (- y) \<le> to_double (- x)"
      by (rule to_double_positive_mono)
    then show ?thesis by (simp add: to_double_minus)
  qed
qed

lemma to_double_of_int:
  assumes "0 \<le> k" and "k < 2 ^ 53"
  shows "to_double (of_int k) = of_int k"
proof (cases "k = 0")
  case True
  then show ?thesis by (simp add: to_double_zero)
next
  case False
  with assms have k: "0 < k" by simp
  define q :: rat where "q = of_int k"
  have q: "0 < q" using k by (simp add: q_def)
  define e where "e = floor_log2 q"
  have lo: "2 powi e \<le> q" and hi: "q < 2 powi (e + 1)"
    using floor_log2_bounds [OF q] by (simp_all add: e_def)
  have "(1::rat) \<le> q"
    using k by (simp add: q_def)
  with hi have "(2::rat) powi 0 < 2 powi (e + 1)" by simp
  then have "0 < e + 1" by (rule powi_less_exp)
  then have e0: "0 \<le> e" by simp
  have "q < of_int (2 ^ 53)"
    unfolding q_def using assms(2) by (simp only: of_int_less_iff)
  also have "(of_int (2 ^ 53) :: rat) = 2 powi 53"
    by simp
  finally have "(2::rat) powi e < 2 powi 53"
    using lo by linarith
  then have e52: "e < 53" by (rule powi_less_exp)
  define n where "n = nat (52 - e)"
  have n: "52 - e = int n"
    using e52 by (simp add: n_def)
  have mx: "max (e - 52) (- 1074) = - int n"
    using n e0 by linarith
  have u: "(2::rat) powi (- int n) = 1 / 2 ^ n"
    by (simp add: power_int_minus divide_inverse)
  have "q / (1 / 2 ^ n) = of_int (k * 2 ^ n)"
    by (simp add: q_def)
  then have r: "round_half_even (q / (1 / 2 ^ n)) = k * 2 ^ n"
    by (simp only: round_half_even_of_int)
  have "to_double q = of_int (k * 2 ^ n) * (1 / 2 ^ n)"
    unfolding to_double_positive [OF q] e_def [symmetric] mx u r ..
  also have "\<dots> = q"
    by (simp add: q_def)
  finally show ?thesis unfolding q_def .
qed

lemma to_double_error:
  assumes q: "0 \<le> q" and hi: "q < 2 powi k" and k: "- 1021 \<le> k"
  shows "\<bar>to_double q - q\<bar> \<le> 2 powi (k - 54)"
proof (cases "q = 0")
  case True
  then show ?thesis by (simp add: to_double_zero)
next
  case False
  with q have pos: "0 < q" by simp
  define e where "e = floor_log2 q"
  define p where "p = max (e - 52) (- 1074)"
  define u :: rat where "u = 2 powi p"
  have u: "0 < u" by (simp add: u_def)
  have "2 powi e \<le> q"
    using floor_log2_bounds [OF pos] by (simp add: e_def)
  with hi have "(2::rat) powi e < 2 powi k" by linarith
  then have "e < k" by (rule powi_less_exp)
  then have pk: "p \<le> k - 53"
    unfolding p_def using k by linarith
  have td: "to_double q = of_int (round_half_even (q / u)) * u"
    unfolding u_def p_def e_def by (rule to_double_positive [OF pos])
  have "to_double q - q = (of_int (round_half_even (q / u)) - q / u) * u"
    using u by (simp add: td field_simps)
  then have "\<bar>to_double q - q\<bar> = \<bar>of_int (round_half_even (q / u)) - q / u\<bar> * u"
    using u by (simp add: abs_mult)
  also have "\<dots> \<le> 1 / 2 * u"
    using u round_half_even_half [of "q / u"] by (intro mult_right_mono) simp_all
  also have "u \<le> 2 powi (k - 53)"
    unfolding u_def using pk by (intro power_int_increasing) simp_all
  also have "1 / 2 * (2::rat) powi (k - 53) = 2 powi (k - 54)"
  proof -
    have "(2::rat) powi (k - 54 + 1) = 2 powi (k - 54) * 2 powi 1"
      by (rule power_int_add) simp
    moreover have "k - 54 + 1 = k - 53" by simp
    ultimately show ?thesis by simp
  qed
  finally show ?thesis by simp
qed

lemma hrtime_since_divmod:
  assumes "0 \<le> snd now" "snd now < 1000000000" "0 \<le> snd started" "snd started < 1000000000"
  shows "hrtime_since now started
           = ((nanoseconds now - nanoseconds started) div 1000000000,
              (nanoseconds now - nanoseconds started) mod 1000000000)"
proof (cases "snd now - snd started < 0")
  case True
  have eq: "nanoseconds now - nanoseconds started
          = 1000000000 * (fst now - fst started - 1) + (snd now - snd started + 1000000000)"
    by (simp add: nanoseconds_def algebra_simps)
  have r: "0 \<le> snd now - snd started + 1000000000"
          "snd now - snd started + 1000000000 < 1000000000"
    using True assms by simp_all
  have "(nanoseconds now - nanoseconds started) div 1000000000 = fst now - fst started - 1"
    using eq r by (rule int_div_pos_eq)
  moreover have "(nanoseconds now - nanoseconds started) mod 1000000000
                   = snd now - snd started + 1000000000"
    using eq r by (rule int_mod_pos_eq)
  ultimately show ?thesis
    using True by (simp add: hrtime_since_def Let_def)
next
  case False
  have eq: "nanoseconds now - nanoseconds started
          = 1000000000 * (fst now - fst started) + (snd now - snd started)"
    by (simp add: nanoseconds_def algebra_simps)
  have r: "0 \<le> snd now - snd started" "snd now - snd started < 1000000000"
    using False assms by simp_all
  have "(nanoseconds now - nanoseconds started) div 1000000000 = fst now - fst started"
    using eq r by (rule int_div_pos_eq)
  moreover have "(nanoseconds now - nanoseconds started) mod 1000000000
                   = snd now - snd started"
    using eq r by (rule int_mod_pos_eq)
  ultimately show ?thesis
    using False by (simp add: hrtime_since_def Let_def)
qed

lemma seconds_exact:
  assumes "0 \<le> N" and "N < 2 ^ 64"
  shows "0 \<le> N div 1000000000 * 1000 \<and> N div 1000000000 * 1000 \<le> (18446744073000 :: int)"
proof -
  have "0 \<le> N div 1000000000"
    using assms(1) by (simp add: pos_imp_zdiv_nonneg_iff)
  moreover have "N \<le> 18446744073709551615"
    using assms(2) by simp
  then have "N div 1000000000 \<le> 18446744073709551615 div 1000000000"
    by (intro zdiv_mono1) simp_all
  then have "N div 1000000000 \<le> 18446744073"
    by simp
  ultimately show ?thesis by simp
qed

lemma multiply_seconds:
  assumes "0 \<le> N" and "N < 2 ^ 64"
  shows "multiply (of_int (N div 1000000000)) 1000 = of_int (N div 1000000000 * 1000)"
proof -
  have "multiply (of_int (N div 1000000000)) 1000 = to_double (of_int (N div 1000000000 * 1000))"
    by (simp add: multiply_def)
  also have "\<dots> = of_int (N div 1000000000 * 1000)"
    using seconds_exact [OF assms] by (intro to_double_of_int) simp_all
  finally show ?thesis .
qed

lemma divide_nanoseconds:
  assumes "0 \<le> n" and "n < 1000000000"
  shows "0 \<le> divide_doubles (of_int n) 1000000
         \<and> divide_doubles (of_int n) 1000000 \<le> 1000
         \<and> \<bar>divide_doubles (of_int n) 1000000 - of_int n / 1000000\<bar> \<le> 2 powi (- 44)"
proof -
  define q :: rat where "q = of_int n / 1000000"
  have q0: "0 \<le> q"
    using assms(1) by (simp add: q_def)
  have "(of_int n :: rat) < of_int 1000000000"
    using assms(2) by (simp only: of_int_less_iff)
  then have q1: "q < 1000"
    by (simp add: q_def)
  have "to_double q \<le> to_double (of_int 1000)"
    using q1 by (intro to_double_mono) simp
  also have "to_double (of_int 1000) = of_int 1000"
    by (rule to_double_of_int) simp_all
  finally have upper: "to_double q \<le> 1000"
    by simp
  have "q < 2 powi 10"
    using q1 by simp
  with q0 have "\<bar>to_double q - q\<bar> \<le> 2 powi (10 - 54)"
    by (rule to_double_error) simp
  then have err: "\<bar>to_double q - q\<bar> \<le> 2 powi (- 44)"
    by simp
  from to_double_nonneg [OF q0] upper err show ?thesis
    unfolding divide_doubles_def q_def by (intro conjI)
qed

lemma duration_ms_value:
  assumes "0 \<le> N" and "N < 2 ^ 64"
  shows "duration_ms (N div 1000000000, N mod 1000000000)
           = to_double (of_int (N div 1000000000 * 1000)
                        + to_double (of_int (N mod 1000000000) / 1000000))"
  by (simp only: duration_ms_def fst_conv snd_conv multiply_seconds [OF assms]
        add_doubles_def divide_doubles_def)

lemma duration_ms_mono:
  assumes "0 \<le> N" and "N \<le> M" and "M < 2 ^ 64"
  shows "duration_ms (N div 1000000000, N mod 1000000000)
           \<le> duration_ms (M div 1000000000, M mod 1000000000)"
proof -
  from assms have N: "N < 2 ^ 64" and M: "0 \<le> M" by simp_all
  define fN where "fN = divide_doubles (of_int (N mod 1000000000)) 1000000"
  define fM where "fM = divide_doubles (of_int (M mod 1000000000)) 1000000"
  have bN: "0 \<le> fN \<and> fN \<le> 1000"
    using divide_nanoseconds [of "N mod 1000000000"] by (simp add: fN_def)
  have bM: "0 \<le> fM \<and> fM \<le> 1000"
    using divide_nanoseconds [of "M mod 1000000000"] by (simp add: fM_def)
  have div: "N div 1000000000 \<le> M div 1000000000"
    using assms(2) by (intro zdiv_mono1) simp_all
  have sums: "of_int (N div 1000000000 * 1000) + fN \<le> of_int (M div 1000000000 * 1000) + fM"
  proof (cases "N div 1000000000 = M div 1000000000")
    case True
    have "N mod 1000000000 = N - 1000000000 * (N div 1000000000)"
      by (simp add: minus_mult_div_eq_mod)
    moreover have "M mod 1000000000 = M - 1000000000 * (M div 1000000000)"
      by (simp add: minus_mult_div_eq_mod)
    ultimately have "N mod 1000000000 \<le> M mod 1000000000"
      using True assms(2) by simp
    then have "(of_int (N mod 1000000000) :: rat) / 1000000 \<le> of_int (M mod 1000000000) / 1000000"
      by (simp add: divide_right_mono)
    then have "fN \<le> fM"
      unfolding fN_def fM_def divide_doubles_def by (rule to_double_mono)
    then show ?thesis using True by simp
  next
    case False
    with div have "N div 1000000000 + 1 \<le> M div 1000000000" by simp
    then have "(N div 1000000000 + 1) * 1000 \<le> M div 1000000000 * 1000"
      by simp
    then have "(of_int ((N div 1000000000 + 1) * 1000) :: rat) \<le> of_int (M div 1000000000 * 1000)"
      by (simp only: of_int_le_iff)
    moreover have "(of_int ((N div 1000000000 + 1) * 1000) :: rat)
                     = of_int (N div 1000000000 * 1000) + 1000"
      by (simp add: algebra_simps)
    ultimately show ?thesis using bN bM by linarith
  qed
  have "add_doubles (of_int (N div 1000000000 * 1000)) fN
          \<le> add_doubles (of_int (M div 1000000000 * 1000)) fM"
    unfolding add_doubles_def using sums by (rule to_double_mono)
  then show ?thesis
    by (simp only: duration_ms_def fst_conv snd_conv multiply_seconds [OF assms(1) N]
          multiply_seconds [OF M assms(3)] fN_def fM_def)
qed

lemma toFixed_half:
  assumes small: "\<bar>x\<bar> < 10 ^ 21"
  shows "\<bar>toFixed f x - x\<bar> \<le> 1 / (2 * 10 ^ f)"
proof -
  define c :: rat where "c = 1 / 10 ^ f"
  define y where "y = x * 10 ^ f"
  have c: "0 < c" by (simp add: c_def)
  have x: "x = y * c" by (simp add: y_def c_def)
  have lo: "of_int \<lfloor>y\<rfloor> \<le> y" and hi: "y < of_int \<lfloor>y\<rfloor> + 1"
    by linarith+
  have "\<bar>toFixed f x - x\<bar> \<le> \<bar>of_int \<lfloor>y\<rfloor> / 10 ^ f - x\<bar>"
    using small by (rule toFixed_nearest)
  also have "of_int \<lfloor>y\<rfloor> / 10 ^ f - x = - ((y - of_int \<lfloor>y\<rfloor>) * c)"
    by (simp add: x c_def field_simps)
  also have "\<bar>- ((y - of_int \<lfloor>y\<rfloor>) * c)\<bar> = (y - of_int \<lfloor>y\<rfloor>) * c"
    using lo c by (simp add: abs_mult)
  finally have a: "\<bar>toFixed f x - x\<bar> \<le> (y - of_int \<lfloor>y\<rfloor>) * c" .
  have "\<bar>toFixed f x - x\<bar> \<le> \<bar>of_int (\<lfloor>y\<rfloor> + 1) / 10 ^ f - x\<bar>"
    using small by (rule toFixed_nearest)
  also have "of_int (\<lfloor>y\<rfloor> + 1) / 10 ^ f - x = (of_int \<lfloor>y\<rfloor> + 1 - y) * c"
    by (simp add: x c_def field_simps)
  also have "\<bar>(of_int \<lfloor>y\<rfloor> + 1 - y) * c\<bar> = (of_int \<lfloor>y\<rfloor> + 1 - y) * c"
    using hi c by (simp add: abs_mult)
  finally have b: "\<bar>toFixed f x - x\<bar> \<le> (of_int \<lfloor>y\<rfloor> + 1 - y) * c" .
  have "(y - of_int \<lfloor>y\<rfloor>) * c + (of_int \<lfloor>y\<rfloor> + 1 - y) * c = c"
    by (simp add: algebra_simps)
  with a b have "\<bar>toFixed f x - x\<bar> \<le> c / 2" by linarith
  then show ?thesis by (simp add: c_def)
qed

lemma duration_ms_accurate:
  assumes "0 \<le> N" and "N < 2 ^ 64"
  shows "\<bar>toFixed 3 (duration_ms (N div 1000000000, N mod 1000000000)) - of_int N / 1000000\<bar>
           \<le> 1 / 400"
proof -
  define s where "s = N div 1000000000 * 1000"
  define n where "n = N mod 1000000000"
  define f where "f = to_double (of_int n / 1000000)"
  define D where "D = to_double (of_int s + f)"
  have dv: "duration_ms (N div 1000000000, N mod 1000000000) = D"
    unfolding D_def f_def s_def n_def by (rule duration_ms_value [OF assms])
  have s: "0 \<le> s \<and> s \<le> 18446744073000"
    unfolding s_def by (rule seconds_exact [OF assms])
  then have sr: "(0::rat) \<le> of_int s \<and> (of_int s :: rat) \<le> of_int 18446744073000"
    by (simp only: of_int_le_iff of_int_0_le_iff)
  have n: "0 \<le> n \<and> n < 1000000000"
    by (simp add: n_def)
  have fb: "0 \<le> f \<and> f \<le> 1000 \<and> \<bar>f - of_int n / 1000000\<bar> \<le> 2 powi (- 44)"
    using divide_nanoseconds [of n] n by (simp add: f_def divide_doubles_def)
  have S0: "0 \<le> of_int s + f"
    using sr fb by linarith
  have S2: "of_int s + f \<le> 18446744074000"
    using sr fb by simp
  then have S1: "of_int s + f < 2 powi 45"
    by simp
  from S0 S1 have "\<bar>D - (of_int s + f)\<bar> \<le> 2 powi (45 - 54)"
    unfolding D_def by (rule to_double_error) simp
  then have De: "\<bar>D - (of_int s + f)\<bar> \<le> 1 / 512"
    by simp
  have fe: "\<bar>f - of_int n / 1000000\<bar> \<le> 1 / 17592186044416"
    using fb by simp
  have "(10::rat) ^ 21 = 1000000000000000000000"
    by simp
  then have "\<bar>D\<bar> < 10 ^ 21"
    using De S0 S2 by linarith
  then have "\<bar>toFixed 3 D - D\<bar> \<le> 1 / (2 * 10 ^ 3)"
    by (rule toFixed_half)
  then have Te: "\<bar>toFixed 3 D - D\<bar> \<le> 1 / 2000"
    by simp
  have "N = 1000000 * s + n"
    by (simp add: s_def n_def)
  then have "(of_int N :: rat) = of_int (1000000 * s + n)"
    by (simp only:)
  then have "(of_int N :: rat) / 1000000 = of_int s + of_int n / 1000000"
    by (simp add: field_simps)
  with De fe Te show ?thesis
    unfolding dv by linarith
qed

text \<open>So does the rounding of \<^verbatim>\<open>toFixed\<close>.\<close>

lemma half_up_mono:
  fixes a b :: rat
  assumes "a \<le> b"
  shows "of_int \<lfloor>a * 10 ^ f + 1 / 2\<rfloor> / 10 ^ f \<le> (of_int \<lfloor>b * 10 ^ f + 1 / 2\<rfloor> / 10 ^ f :: rat)"
proof -
  have "a * 10 ^ f + 1 / 2 \<le> b * 10 ^ f + 1 / 2"
    using assms by (simp add: mult_right_mono)
  then have "\<lfloor>a * 10 ^ f + 1 / 2\<rfloor> \<le> \<lfloor>b * 10 ^ f + 1 / 2\<rfloor>"
    by (rule floor_mono)
  then have "(of_int \<lfloor>a * 10 ^ f + 1 / 2\<rfloor> :: rat) \<le> of_int \<lfloor>b * 10 ^ f + 1 / 2\<rfloor>"
    by simp
  then show ?thesis
    by (rule divide_right_mono) simp
qed

lemma half_up_nonneg:
  fixes a :: rat
  assumes "0 \<le> a"
  shows "0 \<le> (of_int \<lfloor>a * 10 ^ f + 1 / 2\<rfloor> / 10 ^ f :: rat)"
proof -
  have "0 \<le> a * 10 ^ f + 1 / 2"
    using assms by simp
  then have "0 \<le> \<lfloor>a * 10 ^ f + 1 / 2\<rfloor>"
    by simp
  then show ?thesis by simp
qed

lemma half_up_bounded:
  fixes a :: rat
  assumes "a < 10 ^ 21"
  shows "(of_int \<lfloor>a * 10 ^ f + 1 / 2\<rfloor> / 10 ^ f :: rat) \<le> 10 ^ 21"
proof -
  have "a * 10 ^ f < 10 ^ 21 * 10 ^ f"
    using assms by (rule mult_strict_right_mono) simp
  moreover have "(of_int (10 ^ 21 * 10 ^ f) :: rat) = 10 ^ 21 * 10 ^ f"
    by simp
  ultimately have "a * 10 ^ f + 1 / 2 < of_int (10 ^ 21 * 10 ^ f) + 1"
    by linarith
  then have "\<lfloor>a * 10 ^ f + 1 / 2\<rfloor> \<le> 10 ^ 21 * 10 ^ f"
    by (simp only: floor_le_iff)
  then have "(of_int \<lfloor>a * 10 ^ f + 1 / 2\<rfloor> :: rat) \<le> of_int (10 ^ 21 * 10 ^ f)"
    by (simp only: of_int_le_iff)
  then have "(of_int \<lfloor>a * 10 ^ f + 1 / 2\<rfloor> :: rat) \<le> 10 ^ 21 * 10 ^ f"
    by simp
  then show ?thesis
    by (simp add: pos_divide_le_eq)
qed

lemma toFixed_small_bounds:
  assumes "\<bar>x\<bar> < 10 ^ 21"
  shows "- (10 ^ 21) \<le> toFixed f x \<and> toFixed f x \<le> 10 ^ 21"
proof (cases "x < 0")
  case True
  then have t: "toFixed f x = - (of_int \<lfloor>- x * 10 ^ f + 1 / 2\<rfloor> / 10 ^ f)"
    using assms by (simp add: toFixed_def)
  have "- x < 10 ^ 21" using assms by simp
  moreover have "0 \<le> - x" using True by simp
  ultimately show ?thesis
    unfolding t using half_up_bounded [of "- x" f] half_up_nonneg [of "- x" f]
    by linarith
next
  case False
  then have t: "toFixed f x = of_int \<lfloor>x * 10 ^ f + 1 / 2\<rfloor> / 10 ^ f"
    using assms by (simp add: toFixed_def)
  have "x < 10 ^ 21" using assms by simp
  moreover have "0 \<le> x" using False by simp
  ultimately show ?thesis
    unfolding t using half_up_bounded [of x f] half_up_nonneg [of x f]
    by linarith
qed

lemma toFixed_mono:
  assumes xy: "x \<le> y"
  shows "toFixed f x \<le> toFixed f y"
proof (cases "\<bar>x\<bar> < 10 ^ 21")
  case xs: True
  show ?thesis
  proof (cases "\<bar>y\<bar> < 10 ^ 21")
    case ys: True
    consider (neg) "y < 0" | (mixed) "x < 0" "0 \<le> y" | (pos) "0 \<le> x"
      by linarith
    then show ?thesis
    proof cases
      case neg
      with xy have xn: "x < 0" by simp
      have tx: "toFixed f x = - (of_int \<lfloor>- x * 10 ^ f + 1 / 2\<rfloor> / 10 ^ f)"
        using xs xn by (simp add: toFixed_def)
      have ty: "toFixed f y = - (of_int \<lfloor>- y * 10 ^ f + 1 / 2\<rfloor> / 10 ^ f)"
        using ys neg by (simp add: toFixed_def)
      have "- y \<le> - x" using xy by simp
      from half_up_mono [OF this, of f] show ?thesis
        unfolding tx ty by simp
    next
      case mixed
      have tx: "toFixed f x = - (of_int \<lfloor>- x * 10 ^ f + 1 / 2\<rfloor> / 10 ^ f)"
        using xs mixed by (simp add: toFixed_def)
      have ty: "toFixed f y = of_int \<lfloor>y * 10 ^ f + 1 / 2\<rfloor> / 10 ^ f"
        using ys mixed by (simp add: toFixed_def)
      have "0 \<le> - x" using mixed by simp
      from half_up_nonneg [OF this, of f] half_up_nonneg [OF mixed(2), of f]
      show ?thesis unfolding tx ty by linarith
    next
      case pos
      with xy have yp: "0 \<le> y" by simp
      have tx: "toFixed f x = of_int \<lfloor>x * 10 ^ f + 1 / 2\<rfloor> / 10 ^ f"
        using xs pos by (simp add: toFixed_def)
      have ty: "toFixed f y = of_int \<lfloor>y * 10 ^ f + 1 / 2\<rfloor> / 10 ^ f"
        using ys yp by (simp add: toFixed_def)
      from half_up_mono [OF xy, of f] show ?thesis
        unfolding tx ty .
    qed
  next
    case False
    then have yl: "10 ^ 21 \<le> \<bar>y\<bar>" by simp
    then have ty: "toFixed f y = y" by (simp add: toFixed_def)
    have "10 ^ 21 \<le> y" using yl xs xy by linarith
    with toFixed_small_bounds [OF xs, of f] show ?thesis
      unfolding ty by linarith
  qed
next
  case False
  then have xl: "10 ^ 21 \<le> \<bar>x\<bar>" by simp
  then have tx: "toFixed f x = x" by (simp add: toFixed_def)
  show ?thesis
  proof (cases "\<bar>y\<bar> < 10 ^ 21")
    case ys: True
    have "x \<le> - (10 ^ 21)" using xl ys xy by linarith
    with toFixed_small_bounds [OF ys, of f] show ?thesis
      unfolding tx by linarith
  next
    case False
    then have "toFixed f y = y" by (simp add: toFixed_def)
    with xy show ?thesis unfolding tx by simp
  qed
qed

lemma timeEnd_table: "snd (timeEnd label now table) = table"
  by (simp add: timeEnd_def Let_def split: option.splits)

lemma timeEnd_known:
  "map_get table label = Some started \<Longrightarrow>
   timeEnd label now table
     = (Inr (TimeLine label (toFixed 3 (duration_ms (hrtime_since now started)))), table)"
  by (simp add: timeEnd_def Let_def)

lemma timeEnd_throws_iff:
  "fst (timeEnd label now table) = Inl NoSuchLabel \<longleftrightarrow> map_get table label = None"
  by (simp add: timeEnd_def Let_def split: option.splits)

lemma run_timer_unknown:
  "map_get (run_timer calls table) label = None \<longleftrightarrow>
     map_get table label = None \<and> (\<forall>t. CallTime label t \<notin> set calls)"
proof (induction calls arbitrary: table)
  case Nil
  then show ?case by simp
next
  case (Cons call calls)
  show ?case
  proof (cases call)
    case (CallTime l t)
    show ?thesis
    proof (cases "l = label")
      case True
      have "map_get (run_timer (call # calls) table) label \<noteq> None"
        using Cons.IH [of "time l t table"] CallTime True
        by (simp add: time_def map_get_map_set)
      moreover have "CallTime label t \<in> set (call # calls)"
        using CallTime True by simp
      ultimately show ?thesis by blast
    next
      case False
      then show ?thesis
        using Cons.IH [of "time l t table"] CallTime
        by (simp add: time_def map_get_map_set)
    qed
  next
    case (CallTimeEnd l t)
    then show ?thesis
      using Cons.IH [of table] by (simp add: timeEnd_table)
  qed
qed

lemma run_timer_only_timeEnd:
  "\<forall>c\<in>set calls. \<exists>l t. c = CallTimeEnd l t \<Longrightarrow> run_timer calls table = table"
  by (induction calls) (auto simp add: timeEnd_table)

lemma elapsed_bounds:
  assumes "is_hrtime started" and "is_hrtime now"
    and "nanoseconds started \<le> nanoseconds now"
  shows "0 \<le> nanoseconds now - nanoseconds started
         \<and> nanoseconds now - nanoseconds started < 2 ^ 64"
proof -
  have "0 \<le> fst started * 1000000000 + snd started"
    using assms(1) by (simp add: is_hrtime_def)
  then have "0 \<le> nanoseconds started"
    by (simp only: nanoseconds_def)
  moreover have "nanoseconds now < 2 ^ 64"
    using assms(2) by (simp only: is_hrtime_def)
  ultimately show ?thesis
    using assms(3) by linarith
qed

lemma timeEnd_printed:
  assumes known: "map_get table label = Some started"
    and readings: "is_hrtime started" "is_hrtime now"
    and later: "nanoseconds started \<le> nanoseconds now"
    and elapsed: "elapsed = nanoseconds now - nanoseconds started"
  shows "timeEnd label now table
           = (Inr (TimeLine label
                     (toFixed 3 (duration_ms (elapsed div 1000000000, elapsed mod 1000000000)))),
              table)"
proof -
  have "hrtime_since now started = (elapsed div 1000000000, elapsed mod 1000000000)"
    unfolding elapsed using readings by (intro hrtime_since_divmod) (simp_all add: is_hrtime_def)
  then show ?thesis
    by (simp only: timeEnd_known [OF known])
qed

text \<open>
  C4. \<^verbatim>\<open>timeEnd(label)\<close> throws its error exactly when the label is not in the timer
  table, which after any history of \<^verbatim>\<open>time\<close> and \<^verbatim>\<open>timeEnd\<close> calls on the empty table
  means that the history has no \<^verbatim>\<open>time(label)\<close> call (nothing removes a label). It
  leaves the table as it was, and so does any number of \<^verbatim>\<open>timeEnd\<close> calls. When the
  label is there and the clock has not gone back since the stored start,
  \<^verbatim>\<open>timeEnd(label)\<close> prints this number: with \<open>elapsed\<close> the nanoseconds between the
  stored start and the reading, the whole seconds times 1000, which is exact, plus the
  double nearest to the remaining nanoseconds divided by \<open>10 ^ 6\<close>, rounded to a
  double, then to three decimals. It is within \<open>1 / 400\<close> of a millisecond of the elapsed
  time. Two successive calls, at a reading \<open>t1\<close> and at a later or equal reading \<open>t2\<close>,
  both succeed against the same start, and the second number printed is not smaller
  than the first.
\<close>

theorem timeEnd_unknown_label:
  "(fst (timeEnd label now (run_timer calls [])) = Inl NoSuchLabel
      \<longleftrightarrow> (\<forall>t. CallTime label t \<notin> set calls))
   \<and> (\<forall>e. fst (timeEnd label now table) = Inl e
      \<longleftrightarrow> e = NoSuchLabel \<and> map_get table label = None)
   \<and> snd (timeEnd label now table) = table
   \<and> ((\<forall>c\<in>set calls'. \<exists>l t. c = CallTimeEnd l t) \<longrightarrow> run_timer calls' table = table)
   \<and> (\<forall>started elapsed.
        map_get table label = Some started \<and> is_hrtime started \<and> is_hrtime now
          \<and> nanoseconds started \<le> nanoseconds now
          \<and> elapsed = nanoseconds now - nanoseconds started \<longrightarrow>
        (\<exists>d. timeEnd label now table = (Inr (TimeLine label d), table)
           \<and> d = toFixed 3 (to_double (of_int (elapsed div 1000000000 * 1000)
                                        + to_double (of_int (elapsed mod 1000000000) / 1000000)))
           \<and> \<bar>d - of_int elapsed / 1000000\<bar> \<le> 1 / 400))
   \<and> (\<forall>started t1 t2.
        map_get table label = Some started \<and> is_hrtime started \<and> is_hrtime t1 \<and> is_hrtime t2
          \<and> nanoseconds started \<le> nanoseconds t1 \<and> nanoseconds t1 \<le> nanoseconds t2 \<longrightarrow>
        (\<exists>d1 d2. timeEnd label t1 table = (Inr (TimeLine label d1), table)
           \<and> timeEnd label t2 (snd (timeEnd label t1 table)) = (Inr (TimeLine label d2), table)
           \<and> d1 \<le> d2
           \<and> \<bar>d1 - of_int (nanoseconds t1 - nanoseconds started) / 1000000\<bar> \<le> 1 / 400
           \<and> \<bar>d2 - of_int (nanoseconds t2 - nanoseconds started) / 1000000\<bar> \<le> 1 / 400))"
proof -
  have c1: "fst (timeEnd label now (run_timer calls [])) = Inl NoSuchLabel
      \<longleftrightarrow> (\<forall>t. CallTime label t \<notin> set calls)"
    by (simp add: timeEnd_throws_iff run_timer_unknown) (simp add: map_get_def)
  have c2: "\<forall>e. fst (timeEnd label now table) = Inl e
      \<longleftrightarrow> e = NoSuchLabel \<and> map_get table label = None"
    by (auto simp add: timeEnd_def Let_def split: option.splits)
  have c3: "snd (timeEnd label now table) = table"
    by (rule timeEnd_table)
  have c3': "(\<forall>c\<in>set calls'. \<exists>l t. c = CallTimeEnd l t) \<longrightarrow> run_timer calls' table = table"
    by (simp add: run_timer_only_timeEnd)
  have c4: "\<forall>started elapsed.
        map_get table label = Some started \<and> is_hrtime started \<and> is_hrtime now
          \<and> nanoseconds started \<le> nanoseconds now
          \<and> elapsed = nanoseconds now - nanoseconds started \<longrightarrow>
        (\<exists>d. timeEnd label now table = (Inr (TimeLine label d), table)
           \<and> d = toFixed 3 (to_double (of_int (elapsed div 1000000000 * 1000)
                                        + to_double (of_int (elapsed mod 1000000000) / 1000000)))
           \<and> \<bar>d - of_int elapsed / 1000000\<bar> \<le> 1 / 400)"
  proof (intro allI impI)
    fix started :: hrtime and elapsed :: int
    assume h: "map_get table label = Some started \<and> is_hrtime started \<and> is_hrtime now
          \<and> nanoseconds started \<le> nanoseconds now
          \<and> elapsed = nanoseconds now - nanoseconds started"
    then have known: "map_get table label = Some started"
      and readings: "is_hrtime started" "is_hrtime now"
      and later: "nanoseconds started \<le> nanoseconds now"
      and elapsed: "elapsed = nanoseconds now - nanoseconds started"
      by simp_all
    have bounds: "0 \<le> elapsed" "elapsed < 2 ^ 64"
      using elapsed_bounds [OF readings later] unfolding elapsed by simp_all
    let ?d = "toFixed 3 (duration_ms (elapsed div 1000000000, elapsed mod 1000000000))"
    have "timeEnd label now table = (Inr (TimeLine label ?d), table)"
      using known readings later elapsed by (rule timeEnd_printed)
    moreover have "?d = toFixed 3 (to_double (of_int (elapsed div 1000000000 * 1000)
                                        + to_double (of_int (elapsed mod 1000000000) / 1000000)))"
      by (simp only: duration_ms_value [OF bounds])
    moreover have "\<bar>?d - of_int elapsed / 1000000\<bar> \<le> 1 / 400"
      using bounds by (rule duration_ms_accurate)
    ultimately show "\<exists>d. timeEnd label now table = (Inr (TimeLine label d), table)
           \<and> d = toFixed 3 (to_double (of_int (elapsed div 1000000000 * 1000)
                                        + to_double (of_int (elapsed mod 1000000000) / 1000000)))
           \<and> \<bar>d - of_int elapsed / 1000000\<bar> \<le> 1 / 400"
      by blast
  qed
  have c5: "\<forall>started t1 t2.
        map_get table label = Some started \<and> is_hrtime started \<and> is_hrtime t1 \<and> is_hrtime t2
          \<and> nanoseconds started \<le> nanoseconds t1 \<and> nanoseconds t1 \<le> nanoseconds t2 \<longrightarrow>
        (\<exists>d1 d2. timeEnd label t1 table = (Inr (TimeLine label d1), table)
           \<and> timeEnd label t2 (snd (timeEnd label t1 table)) = (Inr (TimeLine label d2), table)
           \<and> d1 \<le> d2
           \<and> \<bar>d1 - of_int (nanoseconds t1 - nanoseconds started) / 1000000\<bar> \<le> 1 / 400
           \<and> \<bar>d2 - of_int (nanoseconds t2 - nanoseconds started) / 1000000\<bar> \<le> 1 / 400)"
  proof (intro allI impI)
    fix started t1 t2 :: hrtime
    assume h: "map_get table label = Some started \<and> is_hrtime started \<and> is_hrtime t1
          \<and> is_hrtime t2
          \<and> nanoseconds started \<le> nanoseconds t1 \<and> nanoseconds t1 \<le> nanoseconds t2"
    then have known: "map_get table label = Some started"
      and r0: "is_hrtime started" and r1: "is_hrtime t1" and r2: "is_hrtime t2"
      and l1: "nanoseconds started \<le> nanoseconds t1"
      and l12: "nanoseconds t1 \<le> nanoseconds t2"
      by simp_all
    from l1 l12 have l2: "nanoseconds started \<le> nanoseconds t2"
      by simp
    define e1 where "e1 = nanoseconds t1 - nanoseconds started"
    define e2 where "e2 = nanoseconds t2 - nanoseconds started"
    have b1: "0 \<le> e1" "e1 < 2 ^ 64"
      using elapsed_bounds [OF r0 r1 l1] by (simp_all add: e1_def)
    have b2: "0 \<le> e2" "e2 < 2 ^ 64"
      using elapsed_bounds [OF r0 r2 l2] by (simp_all add: e2_def)
    have e12: "e1 \<le> e2"
      using l12 by (simp add: e1_def e2_def)
    let ?d1 = "toFixed 3 (duration_ms (e1 div 1000000000, e1 mod 1000000000))"
    let ?d2 = "toFixed 3 (duration_ms (e2 div 1000000000, e2 mod 1000000000))"
    have first: "timeEnd label t1 table = (Inr (TimeLine label ?d1), table)"
      using known r0 r1 l1 e1_def by (rule timeEnd_printed)
    have "timeEnd label t2 table = (Inr (TimeLine label ?d2), table)"
      using known r0 r2 l2 e2_def by (rule timeEnd_printed)
    then have second: "timeEnd label t2 (snd (timeEnd label t1 table))
                         = (Inr (TimeLine label ?d2), table)"
      by (simp only: timeEnd_table)
    have "duration_ms (e1 div 1000000000, e1 mod 1000000000)
            \<le> duration_ms (e2 div 1000000000, e2 mod 1000000000)"
      using b1(1) e12 b2(2) by (rule duration_ms_mono)
    then have le: "?d1 \<le> ?d2"
      by (rule toFixed_mono)
    have a1: "\<bar>?d1 - of_int (nanoseconds t1 - nanoseconds started) / 1000000\<bar> \<le> 1 / 400"
      using duration_ms_accurate [OF b1] by (simp only: e1_def)
    have a2: "\<bar>?d2 - of_int (nanoseconds t2 - nanoseconds started) / 1000000\<bar> \<le> 1 / 400"
      using duration_ms_accurate [OF b2] by (simp only: e2_def)
    from first second le a1 a2
    show "\<exists>d1 d2. timeEnd label t1 table = (Inr (TimeLine label d1), table)
           \<and> timeEnd label t2 (snd (timeEnd label t1 table)) = (Inr (TimeLine label d2), table)
           \<and> d1 \<le> d2
           \<and> \<bar>d1 - of_int (nanoseconds t1 - nanoseconds started) / 1000000\<bar> \<le> 1 / 400
           \<and> \<bar>d2 - of_int (nanoseconds t2 - nanoseconds started) / 1000000\<bar> \<le> 1 / 400"
      by blast
  qed
  from c1 c2 c3 c3' c4 c5 show ?thesis by (intro conjI)
qed

theorem timeEnd_unknown_label_witness:
  "fst (timeEnd ''x'' (5, 0) (run_timer [CallTimeEnd ''x'' (1, 0), CallTime ''y'' (2, 0)] []))
     = Inl NoSuchLabel
   \<and> run_timer [CallTimeEnd ''x'' (4, 0), CallTimeEnd ''x'' (5, 0), CallTimeEnd ''y'' (6, 0)]
         (time ''x'' (3, 999999999) []) = time ''x'' (3, 999999999) []
   \<and> timeEnd ''x'' (7, 1000500) (time ''x'' (7, 0) [])
        = (Inr (TimeLine ''x'' 1), time ''x'' (7, 0) [])
   \<and> (\<exists>d1 d2.
        timeEnd ''x'' (4, 1500000) (time ''x'' (3, 999999999) [])
          = (Inr (TimeLine ''x'' d1), time ''x'' (3, 999999999) [])
        \<and> timeEnd ''x'' (5, 100)
            (snd (timeEnd ''x'' (4, 1500000) (time ''x'' (3, 999999999) [])))
          = (Inr (TimeLine ''x'' d2), time ''x'' (3, 999999999) [])
        \<and> d1 \<le> d2
        \<and> \<bar>d1 - of_int (nanoseconds (4, 1500000) - nanoseconds (3, 999999999)) / 1000000\<bar>
             \<le> 1 / 400
        \<and> \<bar>d2 - of_int (nanoseconds (5, 100) - nanoseconds (3, 999999999)) / 1000000\<bar>
             \<le> 1 / 400)"
proof -
  have h1: "\<forall>t. CallTime ''x'' t \<notin> set [CallTimeEnd ''x'' (1, 0), CallTime ''y'' (2, 0)]"
    by simp
  have w1: "fst (timeEnd ''x'' (5, 0)
              (run_timer [CallTimeEnd ''x'' (1, 0), CallTime ''y'' (2, 0)] []))
     = Inl NoSuchLabel"
    using timeEnd_unknown_label [where label = "''x''" and now = "(5, 0)"
        and calls = "[CallTimeEnd ''x'' (1, 0), CallTime ''y'' (2, 0)]", THEN conjunct1] h1
    by blast
  have h3: "\<forall>c\<in>set [CallTimeEnd ''x'' (4, 0), CallTimeEnd ''x'' (5, 0), CallTimeEnd ''y'' (6, 0)].
              \<exists>l t. c = CallTimeEnd l t"
    by simp
  have w3: "run_timer [CallTimeEnd ''x'' (4, 0), CallTimeEnd ''x'' (5, 0), CallTimeEnd ''y'' (6, 0)]
         (time ''x'' (3, 999999999) []) = time ''x'' (3, 999999999) []"
    using timeEnd_unknown_label [where table = "time ''x'' (3, 999999999) []"
        and calls' = "[CallTimeEnd ''x'' (4, 0), CallTimeEnd ''x'' (5, 0), CallTimeEnd ''y'' (6, 0)]",
        THEN conjunct2, THEN conjunct2, THEN conjunct2, THEN conjunct1, THEN mp, OF h3] .
  have h4: "map_get (time ''x'' (7, 0) []) ''x'' = Some (7, 0)
      \<and> is_hrtime (7, 0) \<and> is_hrtime (7, 1000500)
      \<and> nanoseconds (7, 0) \<le> nanoseconds (7, 1000500)
      \<and> 1000500 = nanoseconds (7, 1000500) - nanoseconds (7, 0)"
    by (simp add: time_def map_get_def nanoseconds_def is_hrtime_def)
  have quotient: "to_double (of_int (1000500 mod 1000000000) / 1000000)
                    = 4505851427184181 / 4503599627370496"
    using to_double_at [of 0 "2001 / 2000"]
    by (simp add: round_half_even_def Let_def floor_rat_numeral)
  have total: "to_double (of_int (1000500 div 1000000000 * 1000)
                          + 4505851427184181 / 4503599627370496)
                 = 4505851427184181 / 4503599627370496"
    using to_double_at [of 0 "4505851427184181 / 4503599627370496"]
    by (simp add: round_half_even_def Let_def floor_rat_numeral)
  have fixed: "toFixed 3 (4505851427184181 / 4503599627370496) = 1"
    by (simp add: toFixed_def floor_rat_numeral)
  have "\<exists>d. timeEnd ''x'' (7, 1000500) (time ''x'' (7, 0) [])
               = (Inr (TimeLine ''x'' d), time ''x'' (7, 0) [])
           \<and> d = toFixed 3 (to_double (of_int (1000500 div 1000000000 * 1000)
                                        + to_double (of_int (1000500 mod 1000000000) / 1000000)))
           \<and> \<bar>d - of_int 1000500 / 1000000\<bar> \<le> 1 / 400"
    using timeEnd_unknown_label [where label = "''x''" and now = "(7, 1000500)"
        and table = "time ''x'' (7, 0) []",
        THEN conjunct2, THEN conjunct2, THEN conjunct2, THEN conjunct2, THEN conjunct1,
        rule_format, OF h4] .
  then have w4: "timeEnd ''x'' (7, 1000500) (time ''x'' (7, 0) [])
        = (Inr (TimeLine ''x'' 1), time ''x'' (7, 0) [])"
    unfolding quotient total fixed by blast
  have h5: "map_get (time ''x'' (3, 999999999) []) ''x'' = Some (3, 999999999)
      \<and> is_hrtime (3, 999999999) \<and> is_hrtime (4, 1500000) \<and> is_hrtime (5, 100)
      \<and> nanoseconds (3, 999999999) \<le> nanoseconds (4, 1500000)
      \<and> nanoseconds (4, 1500000) \<le> nanoseconds (5, 100)"
    by (simp add: time_def map_get_def nanoseconds_def is_hrtime_def)
  have w5: "\<exists>d1 d2.
        timeEnd ''x'' (4, 1500000) (time ''x'' (3, 999999999) [])
          = (Inr (TimeLine ''x'' d1), time ''x'' (3, 999999999) [])
        \<and> timeEnd ''x'' (5, 100)
            (snd (timeEnd ''x'' (4, 1500000) (time ''x'' (3, 999999999) [])))
          = (Inr (TimeLine ''x'' d2), time ''x'' (3, 999999999) [])
        \<and> d1 \<le> d2
        \<and> \<bar>d1 - of_int (nanoseconds (4, 1500000) - nanoseconds (3, 999999999)) / 1000000\<bar>
             \<le> 1 / 400
        \<and> \<bar>d2 - of_int (nanoseconds (5, 100) - nanoseconds (3, 999999999)) / 1000000\<bar>
             \<le> 1 / 400"
    using timeEnd_unknown_label [where label = "''x''"
        and table = "time ''x'' (3, 999999999) []",
        THEN conjunct2, THEN conjunct2, THEN conjunct2, THEN conjunct2, THEN conjunct2,
        rule_format, OF h5] .
  from w1 w3 w4 w5 show ?thesis by (intro conjI)
qed


section \<open>Properties of arraysEqual\<close>

lemma arraysEqual_loop_iff:
  "arraysEqual_loop i n a b \<longleftrightarrow> (\<forall>j. i \<le> j \<and> j < n \<longrightarrow> strict_eq (a ! j) (b ! j))"
proof (induction i n a b rule: arraysEqual_loop.induct)
  case (1 i n a b)
  show ?case
  proof (cases "i < n")
    case False
    then show ?thesis by (subst arraysEqual_loop.simps) auto
  next
    case True
    show ?thesis
    proof (cases "strict_eq (a ! i) (b ! i)")
      case False
      with True show ?thesis by (subst arraysEqual_loop.simps) auto
    next
      case here: True
      have "arraysEqual_loop i n a b = arraysEqual_loop (Suc i) n a b"
        using True here by (subst arraysEqual_loop.simps) simp
      also have "\<dots> \<longleftrightarrow> (\<forall>j. Suc i \<le> j \<and> j < n \<longrightarrow> strict_eq (a ! j) (b ! j))"
        using "1.IH" True here by simp
      also have "\<dots> \<longleftrightarrow> (\<forall>j. i \<le> j \<and> j < n \<longrightarrow> strict_eq (a ! j) (b ! j))"
        using here by (metis Suc_leI le_neq_implies_less Suc_leD)
      finally show ?thesis .
    qed
  qed
qed

text \<open>
  C8. For all arrays \<open>a\<close> (at address \<open>p\<close>) and \<open>b\<close> (at address \<open>q\<close>),
  \<^verbatim>\<open>arraysEqual(a, b)\<close> is true if and only if they are the same instance, or they have
  the same length and corresponding elements are \<^verbatim>\<open>===\<close>. In particular an array equals
  itself, arrays of different lengths are unequal (two arrays at the same address are the
  same array), and distinct arrays that hold distinct object instances at some index are
  unequal even when the two objects have the same constructor and the same properties.
\<close>

theorem arraysEqual_shallow:
  "(arraysEqual (Some (p, a)) (Some (q, b)) \<longleftrightarrow>
      p = q \<or> (length a = length b \<and> (\<forall>i<length a. strict_eq (a ! i) (b ! i))))
   \<and> arraysEqual (Some (p, a)) (Some (p, a))
   \<and> ((p = q \<longrightarrow> a = b) \<and> length a \<noteq> length b \<longrightarrow>
         \<not> arraysEqual (Some (p, a)) (Some (q, b)))
   \<and> (p \<noteq> q \<and> i < length a \<and> a ! i = Obj r c ps \<and> b ! i = Obj r' c ps \<and> r \<noteq> r' \<longrightarrow>
         \<not> arraysEqual (Some (p, a)) (Some (q, b)))"
proof -
  have main: "arraysEqual (Some (p, a)) (Some (q, b)) \<longleftrightarrow>
      p = q \<or> (length a = length b \<and> (\<forall>i<length a. strict_eq (a ! i) (b ! i)))"
    by (simp add: arraysEqual_loop_iff)
  have refl: "arraysEqual (Some (p, a)) (Some (p, a))"
    by simp
  have len: "(p = q \<longrightarrow> a = b) \<and> length a \<noteq> length b \<longrightarrow>
         \<not> arraysEqual (Some (p, a)) (Some (q, b))"
    using main by auto
  have obj: "p \<noteq> q \<and> i < length a \<and> a ! i = Obj r c ps \<and> b ! i = Obj r' c ps \<and> r \<noteq> r' \<longrightarrow>
         \<not> arraysEqual (Some (p, a)) (Some (q, b))"
  proof (intro impI)
    assume h: "p \<noteq> q \<and> i < length a \<and> a ! i = Obj r c ps \<and> b ! i = Obj r' c ps \<and> r \<noteq> r'"
    then have "\<not> strict_eq (a ! i) (b ! i)" by simp
    with h show "\<not> arraysEqual (Some (p, a)) (Some (q, b))"
      unfolding main by blast
  qed
  from main refl len obj show ?thesis by blast
qed

theorem arraysEqual_shallow_witness:
  "\<not> arraysEqual (Some (1, [Bool False, Bool True])) (Some (2, [Bool True]))
   \<and> \<not> arraysEqual (Some (3, [Num 1, Num 2, Obj 10 CObject [(''prop'', Str ''val'')]]))
                     (Some (4, [Num 1, Num 2, Obj 11 CObject [(''prop'', Str ''val'')]]))
   \<and> arraysEqual (Some (5, [Num 1, Num 2, Num 3, Str ''danny'']))
                 (Some (6, [Num 1, Num 2, Num 3, Str ''danny'']))"
proof -
  have a: "\<not> arraysEqual (Some (1, [Bool False, Bool True])) (Some (2, [Bool True]))"
    using arraysEqual_shallow [where p = 1 and a = "[Bool False, Bool True]" and q = 2
        and b = "[Bool True]", THEN conjunct2, THEN conjunct2, THEN conjunct1]
    by (simp del: arraysEqual.simps)
  have b: "\<not> arraysEqual (Some (3, [Num 1, Num 2, Obj 10 CObject [(''prop'', Str ''val'')]]))
                     (Some (4, [Num 1, Num 2, Obj 11 CObject [(''prop'', Str ''val'')]]))"
    using arraysEqual_shallow [where p = 3 and q = 4 and i = 2 and r = 10 and r' = 11
        and c = CObject and ps = "[(''prop'', Str ''val'')]"
        and a = "[Num 1, Num 2, Obj 10 CObject [(''prop'', Str ''val'')]]"
        and b = "[Num 1, Num 2, Obj 11 CObject [(''prop'', Str ''val'')]]",
        THEN conjunct2, THEN conjunct2, THEN conjunct2]
    by (simp del: arraysEqual.simps)
  have c: "arraysEqual (Some (5, [Num 1, Num 2, Num 3, Str ''danny'']))
                 (Some (6, [Num 1, Num 2, Num 3, Str ''danny'']))"
    using arraysEqual_shallow [where p = 5 and q = 6
        and a = "[Num 1, Num 2, Num 3, Str ''danny'']"
        and b = "[Num 1, Num 2, Num 3, Str ''danny'']", THEN conjunct1]
    by (auto simp del: arraysEqual.simps simp add: less_Suc_eq)
  from a b c show ?thesis by blast
qed

end
